theory Spec2Isabelle
  imports Complex_Main "HOL-Library.AList"
begin

section \<open>Data model (src/types/index.ts)\<close>

text \<open>
  JavaScript numbers are modelled as \<^typ>\<open>real\<close>: the exact-arithmetic reading of the
  code. Rounding of IEEE doubles and the infinities are outside the model; where the source
  can produce NaN from a string the model says so with \<open>None\<close>.
\<close>

datatype WaveType = Sine | Square | Sawtooth | Triangle

datatype FilterType = Lowpass | Highpass

record Envelope =
  attack :: real
  decay :: real
  sustain :: real
  release :: real

record ReverbEffect =
  reverb_wet :: real

record DelayEffect =
  delay_time :: string
  delay_feedback :: real
  delay_wet :: real

record FilterEffect =
  filter_type :: FilterType
  filter_frequency :: real
  filter_Q :: real

record DistortionEffect =
  distortion_amount :: real

record TrackEffects =
  reverb :: ReverbEffect
  delay :: DelayEffect
  filter_fx :: FilterEffect
  distortion :: DistortionEffect

record Note =
  note_id :: string
  pitch :: real
  start :: real
  duration :: real
  velocity :: real

record Track =
  track_id :: string
  name :: string
  color :: string
  waveType :: WaveType
  volume :: real
  pan :: real
  muted :: bool
  solo :: bool
  envelope :: Envelope
  effects :: TrackEffects
  track_notes :: "Note list"

record LoopRegion =
  loop_start :: real
  loop_end :: real
  enabled :: bool

section \<open>Time mapping (src/utils/timeHelpers.ts)\<close>

definition beatsToSeconds :: "real \<Rightarrow> real \<Rightarrow> real" where
  "beatsToSeconds beats bpm = (beats / bpm) * 60"

definition secondsToBeats :: "real \<Rightarrow> real \<Rightarrow> real" where
  "secondsToBeats seconds bpm = (seconds / 60) * bpm"

definition barsToBeats :: "real \<Rightarrow> real \<Rightarrow> real" where
  "barsToBeats bars beatsPerBar = bars * beatsPerBar"

section \<open>Note helpers (src/utils/noteHelpers.ts)\<close>

definition midiToFrequency :: "real \<Rightarrow> real" where
  "midiToFrequency midi = 440 * 2 powr ((midi - 69) / 12)"

section \<open>Transport store (src/stores/transportStore.ts)\<close>

record TransportState =
  isPlaying :: bool
  isPaused :: bool
  currentBeat :: real
  loop :: LoopRegion
  metronomeEnabled :: bool
  metronomeVolume :: real

text \<open>What \<open>loadFromStorage\<close> found in local storage: each entry may be missing.\<close>

record StoredTransport =
  stored_loop :: "LoopRegion option"
  stored_metronomeEnabled :: "bool option"
  stored_metronomeVolume :: "real option"

definition initialTransport :: "StoredTransport \<Rightarrow> TransportState" where
  "initialTransport initialState =
     \<lparr> isPlaying = False, isPaused = False, currentBeat = 0,
       loop = (case stored_loop initialState of
                 Some l \<Rightarrow> l
               | None \<Rightarrow> \<lparr> loop_start = 0, loop_end = 16, enabled = False \<rparr>),
       metronomeEnabled = (case stored_metronomeEnabled initialState of
                             Some b \<Rightarrow> b | None \<Rightarrow> False),
       metronomeVolume = (case stored_metronomeVolume initialState of
                            Some v \<Rightarrow> v | None \<Rightarrow> 0.5) \<rparr>"

definition play :: "TransportState \<Rightarrow> TransportState" where
  "play s = s\<lparr> isPlaying := True, isPaused := False \<rparr>"

definition pause :: "TransportState \<Rightarrow> TransportState" where
  "pause s = s\<lparr> isPlaying := False, isPaused := True \<rparr>"

definition stop :: "TransportState \<Rightarrow> TransportState" where
  "stop s = s\<lparr> isPlaying := False, isPaused := False, currentBeat := 0 \<rparr>"

definition togglePlay :: "TransportState \<Rightarrow> TransportState" where
  "togglePlay s = (if isPlaying s then pause s else play s)"

definition setCurrentBeat :: "real \<Rightarrow> TransportState \<Rightarrow> TransportState" where
  "setCurrentBeat beat s =
     (if enabled (loop s) \<and> beat \<ge> loop_end (loop s)
      then s\<lparr> currentBeat := loop_start (loop s) \<rparr>
      else s\<lparr> currentBeat := beat \<rparr>)"

text \<open>
  \<open>seek\<close> also calls the registered seek callback with the clamped beat; the second
  component lists the calls made (none when no callback is registered).
\<close>

definition seek :: "bool \<Rightarrow> real \<Rightarrow> TransportState \<Rightarrow> TransportState \<times> real list" where
  "seek seekCallbackSet beat s =
     (let clampedBeat = max 0 beat
      in (s\<lparr> currentBeat := clampedBeat \<rparr>,
          if seekCallbackSet then [clampedBeat] else []))"

definition setLoopEnabled :: "bool \<Rightarrow> TransportState \<Rightarrow> TransportState" where
  "setLoopEnabled en s = s\<lparr> loop := (loop s)\<lparr> enabled := en \<rparr> \<rparr>"

definition setLoopRegion :: "real \<Rightarrow> real \<Rightarrow> TransportState \<Rightarrow> TransportState" where
  "setLoopRegion st en s =
     s\<lparr> loop := (loop s)\<lparr> loop_start := min st en, loop_end := max st en \<rparr> \<rparr>"

definition toggleLoop :: "TransportState \<Rightarrow> TransportState" where
  "toggleLoop s = s\<lparr> loop := (loop s)\<lparr> enabled := \<not> enabled (loop s) \<rparr> \<rparr>"

definition toggleMetronome :: "TransportState \<Rightarrow> TransportState" where
  "toggleMetronome s = s\<lparr> metronomeEnabled := \<not> metronomeEnabled s \<rparr>"

definition setMetronomeVolume :: "real \<Rightarrow> TransportState \<Rightarrow> TransportState" where
  "setMetronomeVolume v s = s\<lparr> metronomeVolume := max 0 (min 1 v) \<rparr>"

text \<open>The actions of the store, and a run of them from the state the store is created in.\<close>

datatype TransportAction =
    Play | Pause | Stop | TogglePlay
  | SetCurrentBeat real | Seek bool real
  | SetLoopEnabled bool | SetLoopRegion real real | ToggleLoop
  | ToggleMetronome | SetMetronomeVolume real

fun transportStep :: "TransportState \<Rightarrow> TransportAction \<Rightarrow> TransportState" where
  "transportStep s Play = play s"
| "transportStep s Pause = pause s"
| "transportStep s Stop = stop s"
| "transportStep s TogglePlay = togglePlay s"
| "transportStep s (SetCurrentBeat b) = setCurrentBeat b s"
| "transportStep s (Seek cb b) = fst (seek cb b s)"
| "transportStep s (SetLoopEnabled e) = setLoopEnabled e s"
| "transportStep s (SetLoopRegion a b) = setLoopRegion a b s"
| "transportStep s ToggleLoop = toggleLoop s"
| "transportStep s ToggleMetronome = toggleMetronome s"
| "transportStep s (SetMetronomeVolume v) = setMetronomeVolume v s"

definition transportRun :: "StoredTransport \<Rightarrow> TransportAction list \<Rightarrow> TransportState" where
  "transportRun initialState acts = foldl transportStep (initialTransport initialState) acts"

section \<open>History store (src/stores/historyStore.ts)\<close>

text \<open>
  A snapshot is a JavaScript \<open>Map\<close> from track id to that track's notes: an association
  list in insertion order, \<open>set\<close> being \<^const>\<open>AList.update\<close> and \<open>get\<close> being
  \<^const>\<open>map_of\<close>.
\<close>

type_synonym NotesSnapshot = "(string \<times> Note list) list"

record HistoryState =
  past :: "NotesSnapshot list"
  future :: "NotesSnapshot list"
  maxHistory :: nat

definition MAX_HISTORY :: nat where
  "MAX_HISTORY = 50"

definition initialHistory :: HistoryState where
  "initialHistory = \<lparr> past = [], future = [], maxHistory = MAX_HISTORY \<rparr>"

text \<open>
  \<open>JSON.parse(JSON.stringify(track.notes))\<close>: a structurally equal copy that shares nothing
  with the live notes. Values have no identity here, so the copy is the value itself.
\<close>

definition deepCloneNotes :: "Note list \<Rightarrow> Note list" where
  "deepCloneNotes ns = ns"

text \<open>The \<open>forEach\<close> that fills a fresh snapshot, in \<open>pushState\<close> and in the store's undo and redo.\<close>

definition takeSnapshot :: "Track list \<Rightarrow> NotesSnapshot" where
  "takeSnapshot tracks =
     foldl (\<lambda>snapshot track.
              AList.update (track_id track) (deepCloneNotes (track_notes track)) snapshot)
           [] tracks"

definition pushState :: "Track list \<Rightarrow> HistoryState \<Rightarrow> HistoryState" where
  "pushState tracks state =
     (let snapshot = takeSnapshot tracks;
          newPast = past state @ [snapshot];
          newPast = (if length newPast > maxHistory state then tl newPast else newPast)
      in state\<lparr> past := newPast, future := [] \<rparr>)"

text \<open>
  \<open>undo\<close> and \<open>redo\<close> of the history store. The argument is optional in the source
  (\<open>None\<close> is a call without it); a \<open>Map\<close> is always truthy. The first component is the
  returned snapshot, \<open>None\<close> for \<open>null\<close>.
\<close>

definition history_undo ::
  "NotesSnapshot option \<Rightarrow> HistoryState \<Rightarrow> NotesSnapshot option \<times> HistoryState" where
  "history_undo currentState state =
     (if length (past state) = 0 then (None, state)
      else
        let newPast = butlast (past state);
            previousState = last (past state);
            newFuture = (case currentState of
                           Some c \<Rightarrow> c # future state
                         | None \<Rightarrow> future state)
        in (Some previousState, state\<lparr> past := newPast, future := newFuture \<rparr>))"

definition history_redo ::
  "NotesSnapshot option \<Rightarrow> HistoryState \<Rightarrow> NotesSnapshot option \<times> HistoryState" where
  "history_redo currentState state =
     (if length (future state) = 0 then (None, state)
      else
        let newFuture = tl (future state);
            nextState = hd (future state);
            newPast = (case currentState of
                         Some c \<Rightarrow> past state @ [c]
                       | None \<Rightarrow> past state)
        in (Some nextState, state\<lparr> future := newFuture, past := newPast \<rparr>))"

definition canUndo :: "HistoryState \<Rightarrow> bool" where
  "canUndo state \<longleftrightarrow> length (past state) > 0"

definition canRedo :: "HistoryState \<Rightarrow> bool" where
  "canRedo state \<longleftrightarrow> length (future state) > 0"

definition clear :: "HistoryState \<Rightarrow> HistoryState" where
  "clear state = state\<lparr> past := [], future := [] \<rparr>"

text \<open>The actions of the history store, and a run of them from the empty history.\<close>

datatype HistoryAction =
    PushState "Track list"
  | Undo "NotesSnapshot option"
  | Redo "NotesSnapshot option"
  | Clear

fun historyStep :: "HistoryState \<Rightarrow> HistoryAction \<Rightarrow> HistoryState" where
  "historyStep h (PushState tracks) = pushState tracks h"
| "historyStep h (Undo currentState) = snd (history_undo currentState h)"
| "historyStep h (Redo currentState) = snd (history_redo currentState h)"
| "historyStep h Clear = clear h"

definition historyRun :: "HistoryAction list \<Rightarrow> HistoryState" where
  "historyRun acts = foldl historyStep initialHistory acts"

text \<open>The invariant of the history store: the cap never changes, and both stacks fit under it.\<close>

definition historyInv :: "HistoryState \<Rightarrow> bool" where
  "historyInv h \<longleftrightarrow>
     maxHistory h = MAX_HISTORY \<and> length (past h) + length (future h) \<le> MAX_HISTORY"

section \<open>Project store (src/stores/projectStore.ts)\<close>

record ProjectState =
  projectName :: string
  bpm_of :: real
  timeSignature :: "real \<times> real"
  tracks_of :: "Track list"
  selectedTrackId :: "string option"

text \<open>
  \<open>duplicateNotes\<close>. The ids come from \<open>uuidv4()\<close>, a library call: \<open>uuidv4 k\<close> is the value
  of its k-th call during this action. The result is the returned id list and the new state.
\<close>

definition duplicateNotes ::
  "(nat \<Rightarrow> string) \<Rightarrow> string \<Rightarrow> string list \<Rightarrow> ProjectState \<Rightarrow> string list \<times> ProjectState" where
  "duplicateNotes uuidv4 trackId noteIds state =
     (case find (\<lambda>t. track_id t = trackId) (tracks_of state) of
        None \<Rightarrow> ([], state)
      | Some track \<Rightarrow>
          let notesToDuplicate = filter (\<lambda>n. note_id n \<in> set noteIds) (track_notes track);
              newNotes = map (\<lambda>(n, k). n\<lparr> note_id := uuidv4 k \<rparr>)
                             (zip notesToDuplicate [0 ..< length notesToDuplicate]);
              state' = state\<lparr> tracks_of :=
                         map (\<lambda>t. if track_id t = trackId
                                   then t\<lparr> track_notes := track_notes t @ newNotes \<rparr>
                                   else t)
                             (tracks_of state) \<rparr>
          in (map note_id newNotes, state'))"

text \<open>
  The order property that C2 states, in its words: the id returned at position i names a
  copy (same fields, that id) of the note that the given id at position i names.
\<close>

definition copiesFollow :: "Note list \<Rightarrow> string list \<Rightarrow> Note list \<Rightarrow> string list \<Rightarrow> bool" where
  "copiesFollow notesBefore givenIds notesAfter newIds \<longleftrightarrow>
     list_all2 (\<lambda>given new. \<exists>n \<in> set notesBefore.
                   note_id n = given \<and> n\<lparr> note_id := new \<rparr> \<in> set notesAfter)
               givenIds newIds"

text \<open>
  The history actions of the project store act on both stores. \<open>restoreNotes\<close> is the
  \<open>state.tracks.map\<close> that undo and redo both apply to the snapshot they got back.
\<close>

definition restoreNotes :: "NotesSnapshot \<Rightarrow> Track list \<Rightarrow> Track list" where
  "restoreNotes snapshot tracks =
     map (\<lambda>track. case map_of snapshot (track_id track) of
                     Some previousNotes \<Rightarrow> track\<lparr> track_notes := previousNotes \<rparr>
                   | None \<Rightarrow> track)
         tracks"

definition saveToHistory :: "ProjectState \<times> HistoryState \<Rightarrow> ProjectState \<times> HistoryState" where
  "saveToHistory = (\<lambda>(state, historyState).
     (state, pushState (tracks_of state) historyState))"

definition project_undo :: "ProjectState \<times> HistoryState \<Rightarrow> ProjectState \<times> HistoryState" where
  "project_undo = (\<lambda>(state, historyState).
     if \<not> canUndo historyState then (state, historyState)
     else
       let currentSnapshot = takeSnapshot (tracks_of state);
           (previousSnapshot, historyState') = history_undo (Some currentSnapshot) historyState
       in case previousSnapshot of
            None \<Rightarrow> (state, historyState')
          | Some previous \<Rightarrow>
              (state\<lparr> tracks_of := restoreNotes previous (tracks_of state) \<rparr>, historyState'))"

definition project_redo :: "ProjectState \<times> HistoryState \<Rightarrow> ProjectState \<times> HistoryState" where
  "project_redo = (\<lambda>(state, historyState).
     if \<not> canRedo historyState then (state, historyState)
     else
       let currentSnapshot = takeSnapshot (tracks_of state);
           (nextSnapshot, historyState') = history_redo (Some currentSnapshot) historyState
       in case nextSnapshot of
            None \<Rightarrow> (state, historyState')
          | Some next \<Rightarrow>
              (state\<lparr> tracks_of := restoreNotes next (tracks_of state) \<rparr>, historyState'))"

text \<open>An edit of the notes between two history actions: any replacement of the track list.\<close>

definition setTracks :: "Track list \<Rightarrow> ProjectState \<times> HistoryState \<Rightarrow> ProjectState \<times> HistoryState" where
  "setTracks tracks = (\<lambda>(state, historyState). (state\<lparr> tracks_of := tracks \<rparr>, historyState))"

section \<open>The Tone.js transport, as the engine uses it\<close>

text \<open>
  Tone.js is a library outside the repository. What the engine relies on is modelled:
  \<open>schedule\<close> and \<open>scheduleRepeat\<close> register an event under a fresh id and return the id,
  \<open>clear\<close> removes the event registered under an id. A callback is recorded by what it
  does when it fires.
\<close>

datatype EventCallback =
    TriggerAttackRelease string real real real
      \<comment> \<open>the track whose synth plays, frequency, duration in seconds, velocity\<close>
  | BeatUpdate
      \<comment> \<open>the tick that reads \<open>transport.position\<close> and calls \<open>onBeatUpdate\<close>\<close>

datatype EventTime = At real | Every string

record ToneTransport =
  events :: "(nat \<times> EventTime \<times> EventCallback) list"
  nextEventId :: nat
  transport_bpm :: real
  transport_loop :: bool
  loopStart :: real
  loopEnd :: real

definition newTransport :: ToneTransport where
  "newTransport =
     \<lparr> events = [], nextEventId = 0, transport_bpm = 120,
       transport_loop = False, loopStart = 0, loopEnd = 8 \<rparr>"

definition transport_schedule ::
  "EventCallback \<Rightarrow> real \<Rightarrow> ToneTransport \<Rightarrow> nat \<times> ToneTransport" where
  "transport_schedule callback time T =
     (nextEventId T,
      T\<lparr> events := events T @ [(nextEventId T, At time, callback)],
         nextEventId := Suc (nextEventId T) \<rparr>)"

definition transport_scheduleRepeat ::
  "EventCallback \<Rightarrow> string \<Rightarrow> ToneTransport \<Rightarrow> nat \<times> ToneTransport" where
  "transport_scheduleRepeat callback interval T =
     (nextEventId T,
      T\<lparr> events := events T @ [(nextEventId T, Every interval, callback)],
         nextEventId := Suc (nextEventId T) \<rparr>)"

definition transport_clear :: "nat \<Rightarrow> ToneTransport \<Rightarrow> ToneTransport" where
  "transport_clear eventId T = T\<lparr> events := filter (\<lambda>e. fst e \<noteq> eventId) (events T) \<rparr>"

section \<open>Track synths (src/audio/synth.ts)\<close>

text \<open>A synth with its effects chain, recorded by the parameters it was last given.\<close>

record TrackSynth =
  synth_oscillator :: WaveType
  synth_envelope :: Envelope
  gain :: real
  panner :: real
  fx :: TrackEffects

definition createTrackSynth :: "Track \<Rightarrow> (string \<times> TrackSynth) list \<Rightarrow> (string \<times> TrackSynth) list" where
  "createTrackSynth track trackSynths =
     AList.update (track_id track)
       \<lparr> synth_oscillator = waveType track, synth_envelope = envelope track,
         gain = volume track, panner = pan track, fx = effects track \<rparr>
       trackSynths"

definition getTrackSynth :: "string \<Rightarrow> (string \<times> TrackSynth) list \<Rightarrow> TrackSynth option" where
  "getTrackSynth trackId trackSynths = map_of trackSynths trackId"

definition updateTrackSynth :: "Track \<Rightarrow> (string \<times> TrackSynth) list \<Rightarrow> (string \<times> TrackSynth) list" where
  "updateTrackSynth track trackSynths =
     (case map_of trackSynths (track_id track) of
        None \<Rightarrow> createTrackSynth track trackSynths
      | Some trackSynth \<Rightarrow>
          AList.update (track_id track)
            (trackSynth
               \<lparr> synth_oscillator := waveType track, synth_envelope := envelope track,
                 gain := (if muted track then 0 else volume track), panner := pan track,
                 fx := (effects track)
                   \<lparr> delay := (delay (effects track))
                        \<lparr> delay_time := delay_time (delay (fx trackSynth)) \<rparr> \<rparr> \<rparr>)
            trackSynths)"

section \<open>Audio engine (src/audio/engine.ts)\<close>

record EngineState =
  scheduledEvents :: "nat list"
  transport :: ToneTransport
  trackSynths :: "(string \<times> TrackSynth) list"

definition initialEngine :: EngineState where
  "initialEngine = \<lparr> scheduledEvents = [], transport = newTransport, trackSynths = [] \<rparr>"

definition setBPM :: "real \<Rightarrow> EngineState \<Rightarrow> EngineState" where
  "setBPM bpm E = E\<lparr> transport := (transport E)\<lparr> transport_bpm := bpm \<rparr> \<rparr>"

definition clearScheduledNotes :: "EngineState \<Rightarrow> EngineState" where
  "clearScheduledNotes E =
     E\<lparr> transport := foldl (\<lambda>T eventId. transport_clear eventId T) (transport E) (scheduledEvents E),
        scheduledEvents := [] \<rparr>"

text \<open>The body of \<open>track.notes.forEach\<close> in \<open>scheduleNotes\<close>.\<close>

definition scheduleNote :: "real \<Rightarrow> Track \<Rightarrow> EngineState \<Rightarrow> Note \<Rightarrow> EngineState" where
  "scheduleNote bpm track E note =
     (let frequency = midiToFrequency (pitch note);
          startTime = beatsToSeconds (start note) bpm;
          dur = beatsToSeconds (duration note) bpm;
          (eventId, T) = transport_schedule
             (TriggerAttackRelease (track_id track) frequency dur (velocity note))
             startTime (transport E)
      in E\<lparr> transport := T, scheduledEvents := scheduledEvents E @ [eventId] \<rparr>)"

text \<open>The body of \<open>tracks.forEach\<close> in \<open>scheduleNotes\<close>, with its two early returns.\<close>

definition scheduleTrack :: "bool \<Rightarrow> real \<Rightarrow> EngineState \<Rightarrow> Track \<Rightarrow> EngineState" where
  "scheduleTrack hasSolo bpm E track =
     (if muted track then E
      else if hasSolo \<and> \<not> solo track then E
      else
        let E = (case getTrackSynth (track_id track) (trackSynths E) of
                   None \<Rightarrow> E\<lparr> trackSynths := createTrackSynth track (trackSynths E) \<rparr>
                 | Some trackSynth \<Rightarrow> E);
            E = E\<lparr> trackSynths := updateTrackSynth track (trackSynths E) \<rparr>
        in foldl (scheduleNote bpm track) E (track_notes track))"

definition scheduleNotes :: "Track list \<Rightarrow> LoopRegion \<Rightarrow> real \<Rightarrow> EngineState \<Rightarrow> EngineState" where
  "scheduleNotes tracks loopRegion bpm E =
     (let E = clearScheduledNotes E;
          E = setBPM bpm E;
          hasSolo = list_ex solo tracks;
          E = foldl (scheduleTrack hasSolo bpm) E tracks;
          E = (if enabled loopRegion
               then E\<lparr> transport := (transport E)
                        \<lparr> transport_loop := True,
                          loopStart := beatsToSeconds (loop_start loopRegion) bpm,
                          loopEnd := beatsToSeconds (loop_end loopRegion) bpm \<rparr> \<rparr>
               else E\<lparr> transport := (transport E)\<lparr> transport_loop := False \<rparr> \<rparr>);
          (beatSchedule, T) = transport_scheduleRepeat BeatUpdate ''16n'' (transport E)
      in E\<lparr> transport := T, scheduledEvents := scheduledEvents E @ [beatSchedule] \<rparr>)"

text \<open>Calls of the two scheduling functions of the engine, from the freshly loaded module.\<close>

datatype EngineAction =
    ScheduleNotes "Track list" LoopRegion real
  | ClearScheduledNotes

fun engineStep :: "EngineState \<Rightarrow> EngineAction \<Rightarrow> EngineState" where
  "engineStep E (ScheduleNotes tracks loopRegion bpm) = scheduleNotes tracks loopRegion bpm E"
| "engineStep E ClearScheduledNotes = clearScheduledNotes E"

definition engineRun :: "EngineAction list \<Rightarrow> EngineState" where
  "engineRun acts = foldl engineStep initialEngine acts"

text \<open>
  What a note of a track is scheduled as: the time and the callback that both the engine
  and the offline renderer compute for it.
\<close>

definition noteTrigger :: "real \<Rightarrow> Track \<Rightarrow> Note \<Rightarrow> EventTime \<times> EventCallback" where
  "noteTrigger bpm track note =
     (At (beatsToSeconds (start note) bpm),
      TriggerAttackRelease (track_id track) (midiToFrequency (pitch note))
        (beatsToSeconds (duration note) bpm) (velocity note))"

text \<open>The note triggers of a list of tracks, track by track and note by note.\<close>

definition triggersOf :: "real \<Rightarrow> Track list \<Rightarrow> (EventTime \<times> EventCallback) list" where
  "triggersOf bpm tracks = concat (map (\<lambda>t. map (noteTrigger bpm t) (track_notes t)) tracks)"

text \<open>A run of registrations gives its events consecutive ids from the transport's next id.\<close>

definition numbered :: "nat \<Rightarrow> 'a list \<Rightarrow> (nat \<times> 'a) list" where
  "numbered n xs = zip [n ..< n + length xs] xs"

text \<open>
  The active track set in the words of the specification: with a solo'd track, the tracks
  that are solo'd and not muted; without one, the tracks that are not muted.
\<close>

definition activeTrackSet :: "Track list \<Rightarrow> Track list" where
  "activeTrackSet tracks =
     (if list_ex solo tracks then filter (\<lambda>t. solo t \<and> \<not> muted t) tracks
      else filter (\<lambda>t. \<not> muted t) tracks)"

text \<open>
  The invariant of the engine: the pending events of the transport are the ones whose ids
  the engine holds in \<open>scheduledEvents\<close>, and the transport has handed out all of them.
\<close>

definition engineInv :: "EngineState \<Rightarrow> bool" where
  "engineInv E \<longleftrightarrow>
     map fst (events (transport E)) = scheduledEvents E \<and>
     list_all (\<lambda>i. i < nextEventId (transport E)) (scheduledEvents E)"

section \<open>The beat tick of the scheduler (src/audio/engine.ts)\<close>

text \<open>\<open>String.prototype.split\<close> with a one-character separator.\<close>

fun split_on :: "char \<Rightarrow> string \<Rightarrow> string list" where
  "split_on c [] = [[]]"
| "split_on c (x # xs) =
     (if x = c then [] # split_on c xs
      else (case split_on c xs of
              [] \<Rightarrow> [[x]]
            | w # ws \<Rightarrow> (x # w) # ws))"

text \<open>
  \<open>Number\<close> applied to a string, for unsigned decimal literals without exponent
  (\<open>12\<close>, \<open>12.\<close>, \<open>12.5\<close>, \<open>.5\<close>) and the empty string, which is 0; \<open>None\<close> is NaN.
  These are the forms a transport position is made of. Signs, exponents, surrounding white
  space, hexadecimal literals and \<open>Infinity\<close> are not modelled, and nothing below speaks
  of a string that does not parse here.
\<close>

definition digitValue :: "char \<Rightarrow> nat option" where
  "digitValue c =
     (let code = (of_char c :: nat)
      in if 48 \<le> code \<and> code \<le> 57 then Some (code - 48) else None)"

fun digitsValue :: "nat \<Rightarrow> string \<Rightarrow> nat option" where
  "digitsValue acc [] = Some acc"
| "digitsValue acc (c # cs) =
     (case digitValue c of
        None \<Rightarrow> None
      | Some d \<Rightarrow> digitsValue (10 * acc + d) cs)"

definition Number_of_string :: "string \<Rightarrow> real option" where
  "Number_of_string s =
     (case split_on (CHR ''.'') s of
        [intPart] \<Rightarrow>
          (if intPart = [] then Some 0 else map_option real (digitsValue 0 intPart))
      | [intPart, fracPart] \<Rightarrow>
          (if intPart = [] \<and> fracPart = [] then None
           else (case (digitsValue 0 intPart, digitsValue 0 fracPart) of
                   (Some w, Some f) \<Rightarrow> Some (real w + real f / 10 ^ length fracPart)
                 | _ \<Rightarrow> None))
      | _ \<Rightarrow> None)"

text \<open>
  The callback of the repeating tick: it reads \<open>transport.position\<close> and, when that is a
  string, calls \<open>onBeatUpdate\<close>. The result lists the arguments of the calls made. A
  missing array element is \<open>undefined\<close>, which like NaN makes the sum NaN.
\<close>

datatype TransportPosition = PositionString string | PositionNumber real

definition beatUpdateTick :: "TransportPosition \<Rightarrow> real option list" where
  "beatUpdateTick position =
     (case position of
        PositionNumber seconds \<Rightarrow> []
      | PositionString str \<Rightarrow>
          let parts = map Number_of_string (split_on (CHR '':'') str);
              element = (\<lambda>i. if i < length parts then parts ! i else None);
              bars = element 0;
              beats = element 1;
              sixteenths = element 2;
              totalBeats = (case (bars, beats, sixteenths) of
                              (Some br, Some bt, Some sx) \<Rightarrow> Some (br * 4 + bt + sx / 4)
                            | _ \<Rightarrow> None)
          in [totalBeats])"

section \<open>Offline renderer (src/audio/recorder.ts)\<close>

text \<open>
  \<open>renderToWav\<close> up to the call of \<open>Tone.Offline\<close>: the length in seconds it asks for and
  the events it registers on the offline transport. Each track's synth is local to the
  render; the callback is recorded under the track's id.
\<close>

definition renderToWav_durationSeconds :: "real \<Rightarrow> real \<Rightarrow> real" where
  "renderToWav_durationSeconds dur bpm = beatsToSeconds dur bpm + 2"

definition renderToWav_schedule :: "Track list \<Rightarrow> real \<Rightarrow> ToneTransport" where
  "renderToWav_schedule tracks bpm =
     (let hasSolo = list_ex solo tracks;
          T = newTransport\<lparr> transport_bpm := bpm \<rparr>
      in foldl (\<lambda>T track.
           if muted track then T
           else if hasSolo \<and> \<not> solo track then T
           else foldl (\<lambda>T note.
                  let frequency = midiToFrequency (pitch note);
                      startTime = beatsToSeconds (start note) bpm;
                      noteDuration = beatsToSeconds (duration note) bpm
                  in snd (transport_schedule
                       (TriggerAttackRelease (track_id track) frequency noteDuration (velocity note))
                       startTime T))
                T (track_notes track))
         T tracks)"

text \<open>\<open>exportProject\<close>: the duration in beats it computes, and the seconds then rendered.\<close>

definition exportProject_maxEnd :: "Track list \<Rightarrow> real" where
  "exportProject_maxEnd tracks =
     foldl (\<lambda>maxEnd track.
              foldl (\<lambda>maxEnd note.
                       let noteEnd = start note + duration note
                       in if noteEnd > maxEnd then noteEnd else maxEnd)
                    maxEnd (track_notes track))
           0 tracks"

definition exportProject_duration :: "Track list \<Rightarrow> real" where
  "exportProject_duration tracks = max 16 (of_int \<lceil>exportProject_maxEnd tracks\<rceil>)"

definition exportProject_durationSeconds :: "Track list \<Rightarrow> real \<Rightarrow> real" where
  "exportProject_durationSeconds tracks bpm =
     renderToWav_durationSeconds (exportProject_duration tracks) bpm"

section \<open>Example project data\<close>

text \<open>
  The defaults of \<open>createDefaultTrack\<close> (projectStore.ts); the fresh id and the next
  palette colour are its two effects, passed in here.
\<close>

definition DEFAULT_ENVELOPE :: Envelope where
  "DEFAULT_ENVELOPE = \<lparr> attack = 0.01, decay = 0.1, sustain = 0.7, release = 0.3 \<rparr>"

definition DEFAULT_EFFECTS :: TrackEffects where
  "DEFAULT_EFFECTS =
     \<lparr> reverb = \<lparr> reverb_wet = 0 \<rparr>,
       delay = \<lparr> delay_time = ''8n'', delay_feedback = 0.3, delay_wet = 0 \<rparr>,
       filter_fx = \<lparr> filter_type = Lowpass, filter_frequency = 20000, filter_Q = 1 \<rparr>,
       distortion = \<lparr> distortion_amount = 0 \<rparr> \<rparr>"

definition createDefaultTrack :: "string \<Rightarrow> string \<Rightarrow> string \<Rightarrow> Track" where
  "createDefaultTrack newId nextColor nm =
     \<lparr> track_id = newId, name = nm, color = nextColor, waveType = Sine,
       volume = 0.7, pan = 0, muted = False, solo = False,
       envelope = DEFAULT_ENVELOPE, effects = DEFAULT_EFFECTS, track_notes = [] \<rparr>"

text \<open>Two notes, three tracks and a project to run the operations on.\<close>

definition note_n1 :: Note where
  "note_n1 = \<lparr> note_id = ''n1'', pitch = 60, start = 0, duration = 1, velocity = 0.8 \<rparr>"

definition note_n2 :: Note where
  "note_n2 = \<lparr> note_id = ''n2'', pitch = 62, start = 1, duration = 1, velocity = 0.8 \<rparr>"

definition note_n3 :: Note where
  "note_n3 = \<lparr> note_id = ''n3'', pitch = 64, start = 18.5, duration = 1, velocity = 0.8 \<rparr>"

definition trackA :: "Note list \<Rightarrow> Track" where
  "trackA ns = (createDefaultTrack ''A'' ''#FF6B6B'' ''Track 1'')\<lparr> track_notes := ns \<rparr>"

definition trackB :: "Note list \<Rightarrow> Track" where
  "trackB ns = (createDefaultTrack ''B'' ''#4ECDC4'' ''Track 2'')\<lparr> track_notes := ns \<rparr>"

definition trackC :: "Note list \<Rightarrow> Track" where
  "trackC ns = (createDefaultTrack ''C'' ''#95E879'' ''Track 3'')\<lparr> track_notes := ns \<rparr>"

definition exampleProject :: "Track list \<Rightarrow> ProjectState" where
  "exampleProject ts =
     \<lparr> projectName = ''Untitled Project'', bpm_of = 120, timeSignature = (4, 4),
       tracks_of = ts, selectedTrackId = None \<rparr>"

text \<open>A stand-in for the ids \<open>uuidv4\<close> returns: u, ui, uii, ...\<close>

definition exampleUuid :: "nat \<Rightarrow> string" where
  "exampleUuid k = ''u'' @ replicate k (CHR ''i'')"

text \<open>
  A session: track A is empty, the user saves to history, draws note n1 and undoes. The
  history then has an empty past and one snapshot in the future.
\<close>

definition undoneSession :: "ProjectState \<times> HistoryState" where
  "undoneSession =
     project_undo (setTracks [trackA [note_n1]]
       (saveToHistory (exampleProject [trackA []], initialHistory)))"

section \<open>Theorems\<close>

subsection \<open>Transport state machine\<close>

lemmas transport_defs =
  play_def pause_def stop_def togglePlay_def setCurrentBeat_def seek_def setLoopEnabled_def
  setLoopRegion_def toggleLoop_def toggleMetronome_def setMetronomeVolume_def

lemma transportStep_exclusive:
  "\<not> (isPlaying s \<and> isPaused s) \<Longrightarrow>
   \<not> (isPlaying (transportStep s a) \<and> isPaused (transportStep s a))"
  by (cases a) (simp_all add: transport_defs Let_def)

lemma foldl_transportStep_exclusive:
  "\<not> (isPlaying s \<and> isPaused s) \<Longrightarrow>
   \<not> (isPlaying (foldl transportStep s acts) \<and> isPaused (foldl transportStep s acts))"
proof (induction acts arbitrary: s)
  case Nil
  then show ?case by simp
next
  case (Cons a acts)
  have "\<not> (isPlaying (transportStep s a) \<and> isPaused (transportStep s a))"
    using Cons.prems by (rule transportStep_exclusive)
  then show ?case using Cons.IH by simp
qed

text \<open>
  C6. For all real start and end, in any order, setLoopRegion stores
  loop.start = min start end and loop.end = max start end, so loop.start \<le> loop.end holds
  afterwards, and loop.enabled is unchanged.
\<close>

theorem C6_setLoopRegion_ordered:
  "loop_start (loop (setLoopRegion a b s)) = min a b \<and>
   loop_end (loop (setLoopRegion a b s)) = max a b \<and>
   loop_start (loop (setLoopRegion a b s)) \<le> loop_end (loop (setLoopRegion a b s)) \<and>
   enabled (loop (setLoopRegion a b s)) = enabled (loop s)"
  by (simp add: setLoopRegion_def)

text \<open>
  C7. In every transport state, play sets isPlaying and clears isPaused without touching
  currentBeat; pause clears isPlaying and sets isPaused, keeping currentBeat (from Playing
  as from any other state); stop clears both flags and resets currentBeat to 0. Hence in
  no state reached from the initial one by the store's actions are isPlaying and isPaused
  both true.
\<close>

theorem C7_transport_state_machine:
  "(isPlaying (play s) \<and> \<not> isPaused (play s) \<and> currentBeat (play s) = currentBeat s) \<and>
   (\<not> isPlaying (pause s) \<and> isPaused (pause s) \<and> currentBeat (pause s) = currentBeat s) \<and>
   (\<not> isPlaying (stop s) \<and> \<not> isPaused (stop s) \<and> currentBeat (stop s) = 0) \<and>
   \<not> (isPlaying (transportRun stored acts) \<and> isPaused (transportRun stored acts))"
proof -
  have "\<not> (isPlaying (initialTransport stored) \<and> isPaused (initialTransport stored))"
    by (simp add: initialTransport_def)
  then have "\<not> (isPlaying (transportRun stored acts) \<and> isPaused (transportRun stored acts))"
    unfolding transportRun_def by (rule foldl_transportStep_exclusive)
  then show ?thesis
    by (simp add: play_def pause_def stop_def)
qed

subsection \<open>Time mapping\<close>

text \<open>
  C8. For every beat value b \<ge> 0 and every bpm between 40 and 240, beatsToSeconds b bpm is
  b * 60 / bpm, and secondsToBeats undoes beatsToSeconds exactly (over exact arithmetic).
\<close>

theorem C8_beats_seconds_roundtrip:
  assumes "0 \<le> b" and "40 \<le> bpm" and "bpm \<le> 240"
  shows "beatsToSeconds b bpm = b * 60 / bpm \<and>
         secondsToBeats (beatsToSeconds b bpm) bpm = b"
  using assms by (simp add: beatsToSeconds_def secondsToBeats_def)

theorem C8_beats_seconds_roundtrip_witness:
  "beatsToSeconds 3 120 = 3 * 60 / 120 \<and> secondsToBeats (beatsToSeconds 3 120) 120 = 3"
  using C8_beats_seconds_roundtrip [of 3 120] by simp

subsection \<open>History: the bounded stacks\<close>

lemma historyInv_initial: "historyInv initialHistory"
  by (simp add: historyInv_def initialHistory_def)

lemma historyInv_step: "historyInv h \<Longrightarrow> historyInv (historyStep h a)"
proof (cases a)
  case (PushState ts)
  assume "historyInv h"
  then show ?thesis using PushState
    by (auto simp: historyInv_def pushState_def Let_def MAX_HISTORY_def)
next
  case (Undo c)
  assume "historyInv h"
  then show ?thesis using Undo
    by (cases c; cases "past h" rule: rev_cases) (auto simp: historyInv_def history_undo_def Let_def)
next
  case (Redo c)
  assume "historyInv h"
  then show ?thesis using Redo
    by (cases c; cases "future h") (auto simp: historyInv_def history_redo_def Let_def)
next
  case Clear
  assume "historyInv h"
  then show ?thesis using Clear by (simp add: historyInv_def clear_def)
qed

lemma historyInv_foldl: "historyInv h \<Longrightarrow> historyInv (foldl historyStep h acts)"
  by (induction acts arbitrary: h) (simp_all add: historyInv_step)

lemma historyInv_run: "historyInv (historyRun acts)"
  unfolding historyRun_def by (rule historyInv_foldl [OF historyInv_initial])

lemma pushState_full:
  "maxHistory h = length (past h) \<Longrightarrow> 0 < maxHistory h \<Longrightarrow>
   past (pushState ts h) = tl (past h) @ [takeSnapshot ts]"
  by (cases "past h") (simp_all add: pushState_def Let_def)

lemma past_pushAll:
  "past (historyRun (map PushState tss)) = map takeSnapshot (drop (length tss - MAX_HISTORY) tss) \<and>
   maxHistory (historyRun (map PushState tss)) = MAX_HISTORY"
proof (induction tss rule: rev_induct)
  case Nil
  show ?case by (simp add: historyRun_def initialHistory_def)
next
  case (snoc t tss)
  let ?h = "historyRun (map PushState tss)"
  have run: "historyRun (map PushState (tss @ [t])) = pushState t ?h"
    by (simp add: historyRun_def)
  show ?case
  proof (cases "length tss < MAX_HISTORY")
    case True
    then show ?thesis using snoc run
      by (simp add: pushState_def Let_def)
  next
    case False
    then have len: "length (past ?h) = MAX_HISTORY" using snoc by (simp add: MAX_HISTORY_def)
    have "past (pushState t ?h) = tl (past ?h) @ [takeSnapshot t]"
      using len snoc by (simp add: pushState_full MAX_HISTORY_def)
    moreover have "tl (past ?h) = map takeSnapshot (drop (Suc (length tss) - MAX_HISTORY) tss)"
      using snoc False by (simp add: Suc_diff_le drop_Suc tl_drop flip: map_tl)
    ultimately show ?thesis using run snoc False
      by (simp add: pushState_def Let_def Suc_diff_le MAX_HISTORY_def)
  qed
qed

text \<open>
  C5. For every sequence of pushState, undo, redo (and clear) from the empty history, past
  never holds more than 50 snapshots and past and future together never more than 2 * 50;
  a push onto a full past drops the oldest entry first, so pushing 60 states leaves exactly
  the 50 most recent in past.
\<close>

theorem C5_history_bounded:
  "length (past (historyRun acts)) \<le> 50 \<and>
   length (past (historyRun acts)) + length (future (historyRun acts)) \<le> 2 * 50 \<and>
   (length (past (historyRun acts)) = 50 \<longrightarrow>
      past (pushState tracks (historyRun acts)) = tl (past (historyRun acts)) @ [takeSnapshot tracks]) \<and>
   (length tss = 60 \<longrightarrow>
      past (historyRun (map PushState tss)) = map takeSnapshot (drop 10 tss) \<and>
      length (past (historyRun (map PushState tss))) = 50)"
proof -
  have inv: "historyInv (historyRun acts)" by (rule historyInv_run)
  then have a: "length (past (historyRun acts)) \<le> 50"
    and b: "length (past (historyRun acts)) + length (future (historyRun acts)) \<le> 2 * 50"
    by (simp_all add: historyInv_def MAX_HISTORY_def)
  have c: "length (past (historyRun acts)) = 50 \<longrightarrow>
      past (pushState tracks (historyRun acts)) = tl (past (historyRun acts)) @ [takeSnapshot tracks]"
    using inv by (simp add: historyInv_def MAX_HISTORY_def pushState_full)
  have d: "length tss = 60 \<longrightarrow>
      past (historyRun (map PushState tss)) = map takeSnapshot (drop 10 tss) \<and>
      length (past (historyRun (map PushState tss))) = 50"
    using past_pushAll [of tss] by (simp add: MAX_HISTORY_def)
  from a b c d show ?thesis by blast
qed


theorem C5_history_bounded_witness:
  "length (past (historyRun (map (\<lambda>k. PushState [trackA (replicate k note_n1)]) [0 ..< 50]))) = 50 \<and>
   past (pushState [trackA []]
          (historyRun (map (\<lambda>k. PushState [trackA (replicate k note_n1)]) [0 ..< 50]))) =
     tl (past (historyRun (map (\<lambda>k. PushState [trackA (replicate k note_n1)]) [0 ..< 50]))) @
     [takeSnapshot [trackA []]] \<and>
   length (map (\<lambda>k. [trackA (replicate k note_n1)]) [0 ..< 60]) = 60 \<and>
   length (past (historyRun (map PushState (map (\<lambda>k. [trackA (replicate k note_n1)]) [0 ..< 60])))) = 50 \<and>
   map (\<lambda>snapshot. map (\<lambda>(trackId, ns). (trackId, length ns)) snapshot)
       (past (historyRun (map PushState (map (\<lambda>k. [trackA (replicate k note_n1)]) [0 ..< 60])))) =
     map (\<lambda>k. [(''A'', k)]) [10 ..< 60]"
proof -
  let ?acts = "map (\<lambda>k. PushState [trackA (replicate k note_n1)]) [0 ..< 50]"
  let ?tss = "map (\<lambda>k. [trackA (replicate k note_n1)]) [0 ..< 60]"
  have snap: "\<And>ns. takeSnapshot [trackA ns] = [(''A'', ns)]"
    by (simp add: takeSnapshot_def trackA_def createDefaultTrack_def deepCloneNotes_def)
  have acts: "?acts = map PushState (map (\<lambda>k. [trackA (replicate k note_n1)]) [0 ..< 50])"
    by simp
  have h1: "length (past (historyRun ?acts)) = 50"
    unfolding acts using past_pushAll [of "map (\<lambda>k. [trackA (replicate k note_n1)]) [0 ..< 50]"]
    by (simp add: MAX_HISTORY_def)
  have h2: "length ?tss = 60" by simp
  note inst = C5_history_bounded [of ?acts "[trackA []]" ?tss]
  have a: "past (pushState [trackA []] (historyRun ?acts)) =
           tl (past (historyRun ?acts)) @ [takeSnapshot [trackA []]]"
    using inst h1 by blast
  have b: "past (historyRun (map PushState ?tss)) = map takeSnapshot (drop 10 ?tss)"
          "length (past (historyRun (map PushState ?tss))) = 50"
    using inst h2 by blast+
  have d: "drop 10 ?tss = map (\<lambda>k. [trackA (replicate k note_n1)]) [10 ..< 60]"
    by (simp add: drop_map drop_upt)
  have c: "map (\<lambda>snapshot. map (\<lambda>(trackId, ns). (trackId, length ns)) snapshot)
       (past (historyRun (map PushState ?tss))) = map (\<lambda>k. [(''A'', k)]) [10 ..< 60]"
    unfolding b(1) d by (simp add: snap comp_def)
  from h1 a h2 b(2) c show ?thesis by blast
qed

subsection \<open>History: undo and redo of the project store\<close>

lemma map_of_foldl_update:
  "distinct (map track_id ts) \<Longrightarrow>
   map_of (foldl (\<lambda>snapshot track.
              AList.update (track_id track) (deepCloneNotes (track_notes track)) snapshot) acc ts) k =
   (case map_of (map (\<lambda>t. (track_id t, track_notes t)) ts) k of
      Some v \<Rightarrow> Some v
    | None \<Rightarrow> map_of acc k)"
proof (induction ts arbitrary: acc)
  case Nil
  show ?case by simp
next
  case (Cons t ts)
  have notin: "map_of (map (\<lambda>t. (track_id t, track_notes t)) ts) (track_id t) = None"
    using Cons.prems by (auto simp: map_of_eq_None_iff image_iff)
  have d: "distinct (map track_id ts)" using Cons.prems by simp
  show ?case
    using Cons.IH [OF d] notin
    by (simp add: update_conv' deepCloneNotes_def split: option.splits)
qed

lemma takeSnapshot_lookup:
  assumes "distinct (map track_id ts)" and "t \<in> set ts"
  shows "map_of (takeSnapshot ts) (track_id t) = Some (track_notes t)"
proof -
  have "distinct (map fst (map (\<lambda>t. (track_id t, track_notes t)) ts))"
    using assms(1) by (simp add: comp_def)
  then have "map_of (map (\<lambda>t. (track_id t, track_notes t)) ts) (track_id t) = Some (track_notes t)"
    using assms(2) by (simp add: image_iff) blast
  then show ?thesis
    unfolding takeSnapshot_def using map_of_foldl_update [OF assms(1)] by simp
qed

lemma restoreNotes_ids: "map track_id (restoreNotes s ts) = map track_id ts"
  by (simp add: restoreNotes_def split: option.splits)

lemma restoreNotes_takeSnapshot_notes:
  assumes "distinct (map track_id X)" and "map track_id Y = map track_id X"
  shows "map track_notes (restoreNotes (takeSnapshot X) Y) = map track_notes X"
proof (rule nth_equalityI)
  have len: "length Y = length X" using assms(2) by (metis length_map)
  show "length (map track_notes (restoreNotes (takeSnapshot X) Y)) = length (map track_notes X)"
    using len by (simp add: restoreNotes_def)
  fix i assume "i < length (map track_notes (restoreNotes (takeSnapshot X) Y))"
  then have i: "i < length X" "i < length Y" using len by (simp_all add: restoreNotes_def)
  have "track_id (Y ! i) = track_id (X ! i)"
    using assms(2) i by (metis nth_map)
  moreover have "map_of (takeSnapshot X) (track_id (X ! i)) = Some (track_notes (X ! i))"
    using assms(1) i by (simp add: takeSnapshot_lookup)
  ultimately show "map track_notes (restoreNotes (takeSnapshot X) Y) ! i = map track_notes X ! i"
    using i by (simp add: restoreNotes_def)
qed

lemma restoreNotes_back:
  assumes "distinct (map track_id ts)"
  shows "restoreNotes (takeSnapshot ts) (restoreNotes s ts) = ts"
proof -
  have "\<And>t. t \<in> set ts \<Longrightarrow>
     (case map_of (takeSnapshot ts) (track_id (case map_of s (track_id t) of
                     Some previousNotes \<Rightarrow> t\<lparr> track_notes := previousNotes \<rparr>
                   | None \<Rightarrow> t)) of
        Some previousNotes \<Rightarrow> (case map_of s (track_id t) of
                     Some previousNotes \<Rightarrow> t\<lparr> track_notes := previousNotes \<rparr>
                   | None \<Rightarrow> t)\<lparr> track_notes := previousNotes \<rparr>
      | None \<Rightarrow> (case map_of s (track_id t) of
                     Some previousNotes \<Rightarrow> t\<lparr> track_notes := previousNotes \<rparr>
                   | None \<Rightarrow> t)) = t"
    using takeSnapshot_lookup [OF assms] by (simp split: option.splits)
  then show ?thesis
    by (simp add: restoreNotes_def comp_def map_idI)
qed

lemma project_undo_eval:
  "past h = Q @ [s] \<Longrightarrow>
   project_undo (p, h) =
     (p\<lparr> tracks_of := restoreNotes s (tracks_of p) \<rparr>,
      h\<lparr> past := Q, future := takeSnapshot (tracks_of p) # future h \<rparr>)"
  by (simp add: project_undo_def canUndo_def history_undo_def Let_def)

lemma project_redo_eval:
  "future h = s # F \<Longrightarrow>
   project_redo (p, h) =
     (p\<lparr> tracks_of := restoreNotes s (tracks_of p) \<rparr>,
      h\<lparr> future := F, past := past h @ [takeSnapshot (tracks_of p)] \<rparr>)"
  by (simp add: project_redo_def canRedo_def history_redo_def Let_def)

lemma undo_redo_roundtrip:
  assumes "distinct (map track_id (tracks_of p))" and "past h \<noteq> []"
  shows "fst (project_redo (project_undo (p, h))) = p"
proof -
  have "past h = butlast (past h) @ [last (past h)]" using assms(2) by simp
  from project_undo_eval [OF this]
  have u: "project_undo (p, h) =
     (p\<lparr> tracks_of := restoreNotes (last (past h)) (tracks_of p) \<rparr>,
      h\<lparr> past := butlast (past h), future := takeSnapshot (tracks_of p) # future h \<rparr>)" .
  show ?thesis
    unfolding u
    by (subst project_redo_eval [where s = "takeSnapshot (tracks_of p)" and F = "future h"])
       (simp_all add: restoreNotes_back [OF assms(1)])
qed

lemma pushState_twice:
  assumes "2 \<le> maxHistory h"
  shows "\<exists>Q. past (pushState b (pushState a h)) = Q @ [takeSnapshot a, takeSnapshot b]"
proof -
  have 1: "\<exists>Q1. past (pushState a h) = Q1 @ [takeSnapshot a]"
    using assms by (cases "past h") (auto simp: pushState_def Let_def)
  then obtain Q1 where q1: "past (pushState a h) = Q1 @ [takeSnapshot a]" ..
  have m: "maxHistory (pushState a h) = maxHistory h" by (simp add: pushState_def Let_def)
  show ?thesis
    using assms q1 m by (cases Q1) (auto simp: pushState_def [of b] Let_def)
qed

lemma pushState_future: "future (pushState a h) = []"
  by (simp add: pushState_def Let_def)


lemma history_scenario:
  assumes d: "distinct (map track_id (tracks_of p))"
    and i1: "map track_id S1 = map track_id (tracks_of p)"
    and i2: "map track_id S2 = map track_id (tracks_of p)"
    and m: "2 \<le> maxHistory h"
  shows "let st2 = setTracks S2 (saveToHistory (setTracks S1 (saveToHistory (p, h))));
             u1 = project_undo st2; u2 = project_undo u1;
             r1 = project_redo u2; r2 = project_redo r1
         in map track_notes (tracks_of (fst u1)) = map track_notes S1 \<and>
            map track_notes (tracks_of (fst u2)) = map track_notes (tracks_of p) \<and>
            map track_notes (tracks_of (fst r1)) = map track_notes S1 \<and>
            map track_notes (tracks_of (fst r2)) = map track_notes S2"
proof -
  let ?S0 = "tracks_of p"
  define h2 where "h2 = pushState S1 (pushState ?S0 h)"
  obtain Q where q: "past h2 = Q @ [takeSnapshot ?S0, takeSnapshot S1]"
    using pushState_twice [OF m] unfolding h2_def by blast
  have f: "future h2 = []" by (simp add: h2_def pushState_future)
  have d1: "distinct (map track_id S1)" and d2: "distinct (map track_id S2)"
    using d i1 i2 by simp_all
  define p2 where "p2 = p\<lparr> tracks_of := S2 \<rparr>"
  have st2: "setTracks S2 (saveToHistory (setTracks S1 (saveToHistory (p, h)))) = (p2, h2)"
    by (simp add: setTracks_def saveToHistory_def p2_def h2_def)
  define T1 where "T1 = restoreNotes (takeSnapshot S1) S2"
  define T2 where "T2 = restoreNotes (takeSnapshot ?S0) T1"
  define T3 where "T3 = restoreNotes (takeSnapshot T1) T2"
  define T4 where "T4 = restoreNotes (takeSnapshot S2) T3"
  have idT1: "map track_id T1 = map track_id ?S0" by (simp add: T1_def restoreNotes_ids i2)
  have idT2: "map track_id T2 = map track_id ?S0" by (simp add: T2_def restoreNotes_ids idT1)
  have idT3: "map track_id T3 = map track_id ?S0" by (simp add: T3_def restoreNotes_ids idT2)
  have dT1: "distinct (map track_id T1)" using d idT1 by simp
  have n1: "map track_notes T1 = map track_notes S1"
    unfolding T1_def using d1 i1 i2 by (simp add: restoreNotes_takeSnapshot_notes)
  have n2: "map track_notes T2 = map track_notes ?S0"
    unfolding T2_def using d idT1 by (simp add: restoreNotes_takeSnapshot_notes)
  have n3: "map track_notes T3 = map track_notes S1"
    unfolding T3_def using dT1 idT1 idT2 n1 by (simp add: restoreNotes_takeSnapshot_notes)
  have n4: "map track_notes T4 = map track_notes S2"
    unfolding T4_def using d2 idT3 i2 by (simp add: restoreNotes_takeSnapshot_notes)
  define h3 where "h3 = h2\<lparr> past := Q @ [takeSnapshot ?S0], future := [takeSnapshot S2] \<rparr>"
  define h4 where "h4 = h3\<lparr> past := Q, future := [takeSnapshot T1, takeSnapshot S2] \<rparr>"
  define h5 where "h5 = h4\<lparr> future := [takeSnapshot S2], past := Q @ [takeSnapshot T2] \<rparr>"
  have u1: "project_undo (p2, h2) = (p\<lparr> tracks_of := T1 \<rparr>, h3)"
    using project_undo_eval [of h2 "Q @ [takeSnapshot ?S0]" "takeSnapshot S1" p2] q f
    by (simp add: p2_def T1_def h3_def)
  have u2: "project_undo (p\<lparr> tracks_of := T1 \<rparr>, h3) = (p\<lparr> tracks_of := T2 \<rparr>, h4)"
    using project_undo_eval [of h3 Q "takeSnapshot ?S0" "p\<lparr> tracks_of := T1 \<rparr>"]
    by (simp add: h3_def T2_def h4_def)
  have r1: "project_redo (p\<lparr> tracks_of := T2 \<rparr>, h4) = (p\<lparr> tracks_of := T3 \<rparr>, h5)"
    using project_redo_eval [of h4 "takeSnapshot T1" "[takeSnapshot S2]" "p\<lparr> tracks_of := T2 \<rparr>"]
    by (simp add: h4_def T3_def h5_def h3_def)
  have r2: "fst (project_redo (p\<lparr> tracks_of := T3 \<rparr>, h5)) = p\<lparr> tracks_of := T4 \<rparr>"
    using project_redo_eval [of h5 "takeSnapshot S2" "[]" "p\<lparr> tracks_of := T3 \<rparr>"]
    by (simp add: h5_def T4_def)
  show ?thesis
    unfolding Let_def st2 u1 u2 r1 using r2 n1 n2 n3 n4 by simp
qed

text \<open>
  C4 (amended). For every project state with distinct track ids and every history whose
  past is not empty, undo followed by redo restores the per-track note arrays to what they
  were before the undo. And from a state S0, with each push taken before the edit as the
  store's saveToHistory does (push, edit to S1, push, edit to S2, the edits keeping the
  track ids and the history holding at least two entries), two undos show the notes of S1
  then of S0, and two redos the notes of S1 then of S2.
\<close>

theorem C4_undo_redo:
  assumes "distinct (map track_id (tracks_of p))"
  shows "(past h \<noteq> [] \<longrightarrow>
            map track_notes (tracks_of (fst (project_redo (project_undo (p, h))))) =
            map track_notes (tracks_of p)) \<and>
         (map track_id S1 = map track_id (tracks_of p) \<and>
          map track_id S2 = map track_id (tracks_of p) \<and> 2 \<le> maxHistory h \<longrightarrow>
            (let st2 = setTracks S2 (saveToHistory (setTracks S1 (saveToHistory (p, h))));
                 u1 = project_undo st2; u2 = project_undo u1;
                 r1 = project_redo u2; r2 = project_redo r1
             in map track_notes (tracks_of (fst u1)) = map track_notes S1 \<and>
                map track_notes (tracks_of (fst u2)) = map track_notes (tracks_of p) \<and>
                map track_notes (tracks_of (fst r1)) = map track_notes S1 \<and>
                map track_notes (tracks_of (fst r2)) = map track_notes S2))"
proof (intro conjI impI)
  assume "past h \<noteq> []"
  then show "map track_notes (tracks_of (fst (project_redo (project_undo (p, h))))) =
             map track_notes (tracks_of p)"
    using undo_redo_roundtrip [OF assms] by simp
next
  assume a: "map track_id S1 = map track_id (tracks_of p) \<and>
          map track_id S2 = map track_id (tracks_of p) \<and> 2 \<le> maxHistory h"
  show "let st2 = setTracks S2 (saveToHistory (setTracks S1 (saveToHistory (p, h))));
                 u1 = project_undo st2; u2 = project_undo u1;
                 r1 = project_redo u2; r2 = project_redo r1
             in map track_notes (tracks_of (fst u1)) = map track_notes S1 \<and>
                map track_notes (tracks_of (fst u2)) = map track_notes (tracks_of p) \<and>
                map track_notes (tracks_of (fst r1)) = map track_notes S1 \<and>
                map track_notes (tracks_of (fst r2)) = map track_notes S2"
    using history_scenario [OF assms] a by blast
qed


lemmas example_defs =
  note_n1_def note_n2_def trackA_def trackB_def trackC_def exampleProject_def
  createDefaultTrack_def

lemmas history_defs =
  initialHistory_def MAX_HISTORY_def takeSnapshot_def deepCloneNotes_def pushState_def
  history_undo_def history_redo_def canUndo_def canRedo_def restoreNotes_def
  saveToHistory_def project_undo_def project_redo_def setTracks_def

text \<open>
  C4 as stated, for every history state, fails where the past is empty and the future is
  not: undo is then a no-op and redo applies the future snapshot. After the undone session
  track A shows no note; undo then redo leaves it showing n1.
\<close>

theorem C4_undo_redo_counterexample:
  "past (snd undoneSession) = [] \<and>
   map track_notes (tracks_of (fst undoneSession)) = [[]] \<and>
   map track_notes (tracks_of (fst (project_redo (project_undo undoneSession)))) = [[note_n1]] \<and>
   map track_notes (tracks_of (fst (project_redo (project_undo undoneSession)))) \<noteq>
   map track_notes (tracks_of (fst undoneSession))"
  by (simp add: undoneSession_def example_defs history_defs Let_def)

text \<open>
  The two hypotheses of the amended C4 are needed. A snapshot is keyed by track id, so two
  tracks under one id come back from undo and redo with the notes of the later one. And a
  history that was pushed S1 then S2 gives back S2 on its first undo: the states that two
  undos show are the ones pushed, which is why each push is taken before its edit.
\<close>

lemma undo_redo_duplicate_track_ids:
  "past (pushState [trackA []] initialHistory) \<noteq> [] \<and>
   map track_notes (tracks_of (exampleProject [trackA [note_n1], trackA []])) = [[note_n1], []] \<and>
   map track_notes (tracks_of (fst (project_redo (project_undo
     (exampleProject [trackA [note_n1], trackA []], pushState [trackA []] initialHistory))))) =
   [[], []]"
  by (simp add: example_defs history_defs Let_def)

lemma history_undo_after_two_pushes:
  "fst (history_undo c (pushState S2 (pushState S1 initialHistory))) = Some (takeSnapshot S2)"
  by (simp add: history_undo_def pushState_def initialHistory_def MAX_HISTORY_def Let_def)

theorem C4_undo_redo_witness:
  "distinct (map track_id (tracks_of (exampleProject [trackA [note_n1, note_n2]]))) \<and>
   past (pushState [trackA []] initialHistory) \<noteq> [] \<and>
   map track_notes (tracks_of (fst (project_redo (project_undo
      (exampleProject [trackA [note_n1, note_n2]], pushState [trackA []] initialHistory))))) =
   map track_notes (tracks_of (exampleProject [trackA [note_n1, note_n2]])) \<and>
   map track_id [trackA [note_n1]] = map track_id (tracks_of (exampleProject [trackA []])) \<and>
   map track_id [trackA [note_n1, note_n2]] = map track_id (tracks_of (exampleProject [trackA []])) \<and>
   2 \<le> maxHistory initialHistory \<and>
   map track_notes (tracks_of (fst (project_undo
      (setTracks [trackA [note_n1, note_n2]] (saveToHistory (setTracks [trackA [note_n1]]
         (saveToHistory (exampleProject [trackA []], initialHistory)))))))) = [[note_n1]]"
proof -
  have a: "distinct (map track_id (tracks_of (exampleProject [trackA [note_n1, note_n2]])))"
    by (simp add: example_defs)
  have b: "past (pushState [trackA []] initialHistory) \<noteq> []"
    by (simp add: history_defs Let_def)
  have c: "distinct (map track_id (tracks_of (exampleProject [trackA []])))"
    by (simp add: example_defs)
  have d: "map track_id [trackA [note_n1]] = map track_id (tracks_of (exampleProject [trackA []]))"
    "map track_id [trackA [note_n1, note_n2]] = map track_id (tracks_of (exampleProject [trackA []]))"
    "2 \<le> maxHistory initialHistory"
    by (simp_all add: example_defs history_defs)
  have e: "map track_notes [trackA [note_n1]] = [[note_n1]]"
    by (simp add: example_defs)
  show ?thesis
    using C4_undo_redo [OF a, of "pushState [trackA []] initialHistory" "[]" "[]"]
          C4_undo_redo [OF c, of initialHistory "[trackA [note_n1]]" "[trackA [note_n1, note_n2]]"]
          a b d e
    by (simp add: Let_def)
qed

subsection \<open>Project store: duplicateNotes\<close>

lemma copies_zip:
  "map (\<lambda>(n, i). n\<lparr> note_id := i \<rparr>) (zip ms (map g [0 ..< length ms])) =
   map (\<lambda>(n, k). n\<lparr> note_id := g k \<rparr>) (zip ms [0 ..< length ms])"
  by (simp add: zip_map2 case_prod_unfold comp_def)

lemma copies_ids:
  "length is = length ms \<Longrightarrow> map note_id (map (\<lambda>(n, i). n\<lparr> note_id := i \<rparr>) (zip ms is)) = is"
proof (induction ms arbitrary: "is")
  case Nil
  then show ?case by simp
next
  case (Cons m ms)
  then show ?case by (cases "is") simp_all
qed

lemma copies_fields:
  "length is = length ms \<Longrightarrow>
   map pitch (map (\<lambda>(n, i). n\<lparr> note_id := i \<rparr>) (zip ms is)) = map pitch ms \<and>
   map start (map (\<lambda>(n, i). n\<lparr> note_id := i \<rparr>) (zip ms is)) = map start ms \<and>
   map duration (map (\<lambda>(n, i). n\<lparr> note_id := i \<rparr>) (zip ms is)) = map duration ms \<and>
   map velocity (map (\<lambda>(n, i). n\<lparr> note_id := i \<rparr>) (zip ms is)) = map velocity ms"
proof (induction ms arbitrary: "is")
  case Nil
  then show ?case by simp
next
  case (Cons m ms)
  then show ?case by (cases "is") simp_all
qed

lemma copiesFollow_matched:
  assumes "length is = length ms" and "set ms \<subseteq> set before"
    and "set (map (\<lambda>(n, i). n\<lparr> note_id := i \<rparr>) (zip ms is)) \<subseteq> set after"
  shows "copiesFollow before (map note_id ms) after is"
  using assms
proof (induction ms arbitrary: "is")
  case Nil
  then show ?case by (simp add: copiesFollow_def)
next
  case (Cons m ms)
  then obtain i is' where "is": "is = i # is'" by (cases "is") simp_all
  have "copiesFollow before (map note_id ms) after is'"
    using Cons "is" by simp
  moreover have "\<exists>n \<in> set before. note_id n = note_id m \<and> n\<lparr> note_id := i \<rparr> \<in> set after"
    using Cons.prems "is" by auto
  ultimately show ?case
    using "is" by (simp add: copiesFollow_def)
qed

lemma find_same_id:
  assumes "find (\<lambda>t. track_id t = trackId) ts = Some track"
  shows "find (\<lambda>t. track_id t = trackId)
           (map (\<lambda>t. if track_id t = trackId then t\<lparr> track_notes := track_notes t @ new \<rparr> else t) ts) =
         Some (track\<lparr> track_notes := track_notes track @ new \<rparr>)"
  using assms by (induction ts) (auto split: if_splits)

lemma duplicateNotes_found:
  assumes "find (\<lambda>t. track_id t = trackId) (tracks_of state) = Some track"
  shows "duplicateNotes uuidv4 trackId noteIds state =
    (map uuidv4 [0 ..< length (filter (\<lambda>n. note_id n \<in> set noteIds) (track_notes track))],
     state\<lparr> tracks_of :=
       map (\<lambda>t. if track_id t = trackId
                 then t\<lparr> track_notes := track_notes t @
                        map (\<lambda>(n, i). n\<lparr> note_id := i \<rparr>)
                          (zip (filter (\<lambda>n. note_id n \<in> set noteIds) (track_notes track))
                               (map uuidv4 [0 ..< length (filter (\<lambda>n. note_id n \<in> set noteIds) (track_notes track))])) \<rparr>
                 else t)
           (tracks_of state) \<rparr>)"
proof -
  let ?ms = "filter (\<lambda>n. note_id n \<in> set noteIds) (track_notes track)"
  have ids: "map note_id (map (\<lambda>(n, k). n\<lparr> note_id := uuidv4 k \<rparr>) (zip ?ms [0 ..< length ?ms])) =
             map uuidv4 [0 ..< length ?ms]"
    using copies_ids [of "map uuidv4 [0 ..< length ?ms]" ?ms] by (simp add: copies_zip)
  show ?thesis
    using assms ids by (simp add: duplicateNotes_def Let_def copies_zip)
qed


text \<open>
  C2 (amended). For every state in which the track is found, duplicateNotes appends one copy
  per matched note (a note of the track whose id is among noteIds), each with the id uuidv4
  returned for it and the same pitch, start, duration and velocity; the original notes stay
  in front unchanged; the returned ids are those of the copies, in the order in which the
  matched notes stand in the track. The new ids are distinct and new to the track whenever
  uuidv4 returns distinct ids that the track does not use.
\<close>

theorem C2_duplicateNotes:
  assumes "find (\<lambda>t. track_id t = trackId) (tracks_of state) = Some track"
  shows "let matched = filter (\<lambda>n. note_id n \<in> set noteIds) (track_notes track);
             newIds = fst (duplicateNotes uuidv4 trackId noteIds state);
             state' = snd (duplicateNotes uuidv4 trackId noteIds state);
             copies = map (\<lambda>(n, i). n\<lparr> note_id := i \<rparr>) (zip matched newIds)
         in newIds = map uuidv4 [0 ..< length matched] \<and>
            find (\<lambda>t. track_id t = trackId) (tracks_of state') =
              Some (track\<lparr> track_notes := track_notes track @ copies \<rparr>) \<and>
            length copies = length matched \<and>
            map note_id copies = newIds \<and>
            map pitch copies = map pitch matched \<and>
            map start copies = map start matched \<and>
            map duration copies = map duration matched \<and>
            map velocity copies = map velocity matched \<and>
            copiesFollow (track_notes track) (map note_id matched)
                         (track_notes track @ copies) newIds \<and>
            (inj_on uuidv4 {..< length matched} \<and>
             uuidv4 ` {..< length matched} \<inter> note_id ` set (track_notes track) = {}
             \<longrightarrow> distinct newIds \<and> set newIds \<inter> note_id ` set (track_notes track) = {})"
proof -
  define matched where "matched = filter (\<lambda>n. note_id n \<in> set noteIds) (track_notes track)"
  define newIds where "newIds = map uuidv4 [0 ..< length matched]"
  define copies where "copies = map (\<lambda>(n, i). n\<lparr> note_id := i \<rparr>) (zip matched newIds)"
  have len: "length newIds = length matched" by (simp add: newIds_def)
  have r: "duplicateNotes uuidv4 trackId noteIds state =
     (newIds, state\<lparr> tracks_of :=
        map (\<lambda>t. if track_id t = trackId then t\<lparr> track_notes := track_notes t @ copies \<rparr> else t)
            (tracks_of state) \<rparr>)"
    unfolding copies_def newIds_def matched_def by (rule duplicateNotes_found [OF assms])
  have f: "find (\<lambda>t. track_id t = trackId)
             (tracks_of (snd (duplicateNotes uuidv4 trackId noteIds state))) =
           Some (track\<lparr> track_notes := track_notes track @ copies \<rparr>)"
    unfolding r using find_same_id [OF assms] by simp
  have l: "length copies = length matched" by (simp add: copies_def len)
  have i: "map note_id copies = newIds" unfolding copies_def by (rule copies_ids [OF len])
  have fl: "map pitch copies = map pitch matched \<and> map start copies = map start matched \<and>
            map duration copies = map duration matched \<and> map velocity copies = map velocity matched"
    unfolding copies_def by (rule copies_fields [OF len])
  have cf: "copiesFollow (track_notes track) (map note_id matched) (track_notes track @ copies) newIds"
    by (rule copiesFollow_matched [OF len]) (auto simp: matched_def copies_def)
  have fresh: "inj_on uuidv4 {..< length matched} \<and>
             uuidv4 ` {..< length matched} \<inter> note_id ` set (track_notes track) = {}
             \<longrightarrow> distinct newIds \<and> set newIds \<inter> note_id ` set (track_notes track) = {}"
    by (simp add: newIds_def distinct_map atLeast0LessThan)
  show ?thesis
    unfolding Let_def matched_def [symmetric]
    using f l i fl cf fresh by (simp add: r copies_def [symmetric]) (simp add: newIds_def)
qed

text \<open>
  C2 as stated, the returned ids following the order of the given noteIds, fails on a track
  holding n1 then n2 when the ids are given as n2, n1: the first returned id names the copy
  of n1.
\<close>

theorem C2_duplicateNotes_counterexample:
  "fst (duplicateNotes exampleUuid ''A'' [''n2'', ''n1'']
          (exampleProject [trackA [note_n1, note_n2]])) = [''u'', ''ui''] \<and>
   map track_notes (tracks_of (snd (duplicateNotes exampleUuid ''A'' [''n2'', ''n1'']
          (exampleProject [trackA [note_n1, note_n2]])))) =
     [[note_n1, note_n2, note_n1\<lparr> note_id := ''u'' \<rparr>, note_n2\<lparr> note_id := ''ui'' \<rparr>]] \<and>
   \<not> copiesFollow [note_n1, note_n2] [''n2'', ''n1'']
        [note_n1, note_n2, note_n1\<lparr> note_id := ''u'' \<rparr>, note_n2\<lparr> note_id := ''ui'' \<rparr>]
        [''u'', ''ui'']"
  by (simp add: duplicateNotes_def exampleUuid_def exampleProject_def trackA_def
        createDefaultTrack_def note_n1_def note_n2_def copiesFollow_def Let_def)


theorem C2_duplicateNotes_witness:
  "find (\<lambda>t. track_id t = ''A'') (tracks_of (exampleProject [trackA [note_n1, note_n2]])) =
     Some (trackA [note_n1, note_n2]) \<and>
   fst (duplicateNotes exampleUuid ''A'' [''n2'', ''n1'']
          (exampleProject [trackA [note_n1, note_n2]])) = [''u'', ''ui''] \<and>
   find (\<lambda>t. track_id t = ''A'')
     (tracks_of (snd (duplicateNotes exampleUuid ''A'' [''n2'', ''n1'']
          (exampleProject [trackA [note_n1, note_n2]])))) =
     Some (trackA [note_n1, note_n2, note_n1\<lparr> note_id := ''u'' \<rparr>, note_n2\<lparr> note_id := ''ui'' \<rparr>]) \<and>
   copiesFollow [note_n1, note_n2] [''n1'', ''n2'']
     [note_n1, note_n2, note_n1\<lparr> note_id := ''u'' \<rparr>, note_n2\<lparr> note_id := ''ui'' \<rparr>]
     [''u'', ''ui'']"
proof -
  have h: "find (\<lambda>t. track_id t = ''A'') (tracks_of (exampleProject [trackA [note_n1, note_n2]])) =
     Some (trackA [note_n1, note_n2])"
    by (simp add: exampleProject_def trackA_def createDefaultTrack_def)
  have m: "filter (\<lambda>n. note_id n \<in> set [''n2'', ''n1'']) (track_notes (trackA [note_n1, note_n2])) =
           [note_n1, note_n2]"
    by (simp add: trackA_def note_n1_def note_n2_def)
  have t: "track_notes (trackA [note_n1, note_n2]) = [note_n1, note_n2]"
          "\<And>ns. (trackA [note_n1, note_n2])\<lparr> track_notes := ns \<rparr> = trackA ns"
    by (simp_all add: trackA_def)
  note inst = C2_duplicateNotes [OF h, of "[''n2'', ''n1'']" exampleUuid, unfolded Let_def m]
  have ids: "fst (duplicateNotes exampleUuid ''A'' [''n2'', ''n1'']
          (exampleProject [trackA [note_n1, note_n2]])) = [''u'', ''ui'']"
    using inst [THEN conjunct1] by (simp add: exampleUuid_def)
  have tr: "find (\<lambda>t. track_id t = ''A'')
     (tracks_of (snd (duplicateNotes exampleUuid ''A'' [''n2'', ''n1'']
          (exampleProject [trackA [note_n1, note_n2]])))) =
     Some (trackA [note_n1, note_n2, note_n1\<lparr> note_id := ''u'' \<rparr>, note_n2\<lparr> note_id := ''ui'' \<rparr>])"
    using inst [THEN conjunct2, THEN conjunct1] unfolding ids by (simp add: t)
  have cf: "copiesFollow [note_n1, note_n2] [''n1'', ''n2'']
     [note_n1, note_n2, note_n1\<lparr> note_id := ''u'' \<rparr>, note_n2\<lparr> note_id := ''ui'' \<rparr>]
     [''u'', ''ui'']"
    using inst [THEN conjunct2, THEN conjunct2, THEN conjunct2, THEN conjunct2, THEN conjunct2,
                THEN conjunct2, THEN conjunct2, THEN conjunct2, THEN conjunct1]
    unfolding ids by (simp add: t) (simp add: note_n1_def note_n2_def)
  show ?thesis
    using h ids tr cf by blast
qed

subsection \<open>Offline renderer: the export duration\<close>

lemma Max_insert_max:
  "finite A \<Longrightarrow> Max (insert (max a b) A) = max (a :: real) (Max (insert b A))"
  by (cases "A = {}") (simp_all add: max.assoc)

lemma Max_insert_Max:
  "finite A \<Longrightarrow> finite B \<Longrightarrow>
   Max (insert (Max (insert m A)) B) = Max (insert (m :: real) (A \<union> B))"
proof (cases "B = {}")
  case True
  then show ?thesis by simp
next
  case False
  assume "finite A" "finite B"
  then have "Max (insert m A \<union> B) = max (Max (insert m A)) (Max B)"
    using False by (intro Max_Un) simp_all
  then show ?thesis using \<open>finite B\<close> False by simp
qed

lemma maxEnd_notes:
  "foldl (\<lambda>maxEnd note. let noteEnd = start note + duration note
                          in if noteEnd > maxEnd then noteEnd else maxEnd) m ns =
   Max (insert m ((\<lambda>n. start n + duration n) ` set ns))"
proof (induction ns arbitrary: m)
  case Nil
  show ?case by simp
next
  case (Cons n ns)
  have "(if start n + duration n > m then start n + duration n else m) = max m (start n + duration n)"
    by (simp add: max_def)
  then show ?case
    using Cons.IH [of "max m (start n + duration n)"]
    by (simp add: Let_def Max_insert_max)
qed

lemma maxEnd_tracks:
  "foldl (\<lambda>maxEnd track.
              foldl (\<lambda>maxEnd note.
                       let noteEnd = start note + duration note
                       in if noteEnd > maxEnd then noteEnd else maxEnd)
                    maxEnd (track_notes track)) m tracks =
   Max (insert m ((\<lambda>n. start n + duration n) ` set (concat (map track_notes tracks))))"
proof (induction tracks arbitrary: m)
  case Nil
  show ?case by simp
next
  case (Cons t ts)
  let ?f = "\<lambda>n. start n + duration n"
  have "Max (insert (Max (insert m (?f ` set (track_notes t)))) (?f ` set (concat (map track_notes ts)))) =
        Max (insert m (?f ` set (track_notes t) \<union> ?f ` set (concat (map track_notes ts))))"
    by (rule Max_insert_Max) simp_all
  then show ?case
    using Cons.IH by (simp add: maxEnd_notes image_Un)
qed

lemma exportProject_maxEnd_Max:
  "exportProject_maxEnd tracks =
   Max (insert 0 ((\<lambda>n. start n + duration n) ` set (concat (map track_notes tracks))))"
  unfolding exportProject_maxEnd_def by (rule maxEnd_tracks)

lemma max16_ceiling:
  "max 16 (of_int \<lceil>max 0 x\<rceil>) = max (16 :: real) (of_int \<lceil>x :: real\<rceil>)"
  by (simp add: max_def)

text \<open>
  C1 (amended). For every track set, the WAV export duration in beats is 16 when no track
  has any note, and otherwise the larger of 16 and the ceiling of the maximum of
  note.start + note.duration over all notes of all tracks; the length in seconds asked of
  the renderer is that beat count converted at the project BPM, plus 2 seconds of tail.
\<close>

theorem C1_export_duration:
  "(concat (map track_notes tracks) = [] \<longrightarrow> exportProject_duration tracks = 16) \<and>
   (concat (map track_notes tracks) \<noteq> [] \<longrightarrow>
      exportProject_duration tracks =
      max 16 (of_int \<lceil>Max ((\<lambda>n. start n + duration n) ` set (concat (map track_notes tracks)))\<rceil>)) \<and>
   exportProject_durationSeconds tracks bpm =
     beatsToSeconds (exportProject_duration tracks) bpm + 2"
proof (intro conjI impI)
  assume "concat (map track_notes tracks) = []"
  then show "exportProject_duration tracks = 16"
    by (simp add: exportProject_duration_def exportProject_maxEnd_Max del: concat_eq_Nil_conv)
next
  let ?E = "(\<lambda>n. start n + duration n) ` set (concat (map track_notes tracks))"
  assume "concat (map track_notes tracks) \<noteq> []"
  then have ne: "?E \<noteq> {}" by (simp del: concat_eq_Nil_conv set_concat)
  have "Max (insert 0 ?E) = max 0 (Max ?E)"
    using ne by (intro Max_insert) simp_all
  then show "exportProject_duration tracks = max 16 (of_int \<lceil>Max ?E\<rceil>)"
    by (simp add: exportProject_duration_def exportProject_maxEnd_Max max16_ceiling
             del: set_concat)
next
  show "exportProject_durationSeconds tracks bpm =
        beatsToSeconds (exportProject_duration tracks) bpm + 2"
    by (simp add: exportProject_durationSeconds_def renderToWav_durationSeconds_def)
qed




text \<open>
  C1 as stated, the duration being the ceiling of the latest note end whenever a note
  exists, fails for a project whose only note ends at beat 1: the duration is 16, not 1.
\<close>

theorem C1_export_duration_counterexample:
  "concat (map track_notes [trackA [note_n1]]) \<noteq> [] \<and>
   exportProject_duration [trackA [note_n1]] = 16 \<and>
   of_int \<lceil>Max ((\<lambda>n. start n + duration n) ` set (concat (map track_notes [trackA [note_n1]])))\<rceil>
     = (1 :: real) \<and>
   exportProject_duration [trackA [note_n1]] \<noteq>
   of_int \<lceil>Max ((\<lambda>n. start n + duration n) ` set (concat (map track_notes [trackA [note_n1]])))\<rceil>"
  by (simp add: exportProject_duration_def exportProject_maxEnd_def trackA_def note_n1_def
        createDefaultTrack_def Let_def)

theorem C1_export_duration_witness:
  "concat (map track_notes [trackA []]) = [] \<and>
   exportProject_duration [trackA []] = 16 \<and>
   exportProject_durationSeconds [trackA []] 120 = 10 \<and>
   concat (map track_notes [trackA [note_n3]]) \<noteq> [] \<and>
   exportProject_duration [trackA [note_n3]] = 20 \<and>
   exportProject_durationSeconds [trackA [note_n3]] 120 = 12"
proof -
  have e: "concat (map track_notes [trackA []]) = []"
    by (simp add: trackA_def)
  have n: "concat (map track_notes [trackA [note_n3]]) = [note_n3]"
    by (simp add: trackA_def)
  have d0: "exportProject_duration [trackA []] = 16"
    using C1_export_duration [of "[trackA []]" 120] e by blast
  have d1: "exportProject_duration [trackA [note_n3]] = 20"
    using C1_export_duration [of "[trackA [note_n3]]" 120] unfolding n
    by (simp add: note_n3_def)
  have s0: "exportProject_durationSeconds [trackA []] 120 = 10"
    using C1_export_duration [of "[trackA []]" 120] unfolding d0
    by (simp add: beatsToSeconds_def)
  have s1: "exportProject_durationSeconds [trackA [note_n3]] 120 = 12"
    using C1_export_duration [of "[trackA [note_n3]]" 120] unfolding d1
    by (simp add: beatsToSeconds_def)
  show ?thesis
    using e n d0 d1 s0 s1 by simp
qed

subsection \<open>Scheduler and offline renderer\<close>

lemma numbered_Nil: "numbered n [] = []"
  by (simp add: numbered_def)

lemma numbered_Cons: "numbered n (x # xs) = (n, x) # numbered (Suc n) xs"
  by (simp add: numbered_def upt_conv_Cons del: upt_Suc)

lemma numbered_append: "numbered n (xs @ ys) = numbered n xs @ numbered (n + length xs) ys"
  by (induction xs arbitrary: n) (simp_all add: numbered_Nil numbered_Cons)

lemma map_fst_numbered: "map fst (numbered n xs) = [n ..< n + length xs]"
  by (simp add: numbered_def)

lemma map_snd_numbered: "map snd (numbered n xs) = xs"
  by (simp add: numbered_def)

lemma scheduleNote_events:
  "events (transport (scheduleNote bpm track E note)) =
     events (transport E) @ [(nextEventId (transport E), noteTrigger bpm track note)] \<and>
   nextEventId (transport (scheduleNote bpm track E note)) = Suc (nextEventId (transport E)) \<and>
   scheduledEvents (scheduleNote bpm track E note) = scheduledEvents E @ [nextEventId (transport E)]"
  by (simp add: scheduleNote_def transport_schedule_def noteTrigger_def Let_def)

lemma foldl_scheduleNote:
  "events (transport (foldl (scheduleNote bpm track) E ns)) =
     events (transport E) @ numbered (nextEventId (transport E)) (map (noteTrigger bpm track) ns) \<and>
   nextEventId (transport (foldl (scheduleNote bpm track) E ns)) =
     nextEventId (transport E) + length ns \<and>
   scheduledEvents (foldl (scheduleNote bpm track) E ns) =
     scheduledEvents E @ [nextEventId (transport E) ..< nextEventId (transport E) + length ns]"
proof (induction ns arbitrary: E)
  case Nil
  show ?case by (simp add: numbered_Nil)
next
  case (Cons n ns)
  show ?case
    using Cons.IH [of "scheduleNote bpm track E n"] scheduleNote_events [of bpm track E n]
    by (simp add: numbered_Cons upt_conv_Cons del: upt_Suc)
qed

lemma scheduleTrack_events:
  "events (transport (scheduleTrack hasSolo bpm E track)) =
     events (transport E) @ numbered (nextEventId (transport E))
       (triggersOf bpm (filter (\<lambda>t. \<not> muted t \<and> \<not> (hasSolo \<and> \<not> solo t)) [track])) \<and>
   nextEventId (transport (scheduleTrack hasSolo bpm E track)) =
     nextEventId (transport E) +
     length (triggersOf bpm (filter (\<lambda>t. \<not> muted t \<and> \<not> (hasSolo \<and> \<not> solo t)) [track])) \<and>
   scheduledEvents (scheduleTrack hasSolo bpm E track) =
     scheduledEvents E @ [nextEventId (transport E) ..< nextEventId (transport E) +
     length (triggersOf bpm (filter (\<lambda>t. \<not> muted t \<and> \<not> (hasSolo \<and> \<not> solo t)) [track]))]"
proof (cases "muted track \<or> (hasSolo \<and> \<not> solo track)")
  case True
  then show ?thesis
    by (auto simp: scheduleTrack_def triggersOf_def numbered_Nil)
next
  case False
  define E1 where "E1 = (case getTrackSynth (track_id track) (trackSynths E) of
                   None \<Rightarrow> E\<lparr> trackSynths := createTrackSynth track (trackSynths E) \<rparr>
                 | Some trackSynth \<Rightarrow> E)"
  define E2 where "E2 = E1\<lparr> trackSynths := updateTrackSynth track (trackSynths E1) \<rparr>"
  have same: "transport E2 = transport E" "scheduledEvents E2 = scheduledEvents E"
    by (simp_all add: E2_def E1_def split: option.splits)
  have st: "scheduleTrack hasSolo bpm E track = foldl (scheduleNote bpm track) E2 (track_notes track)"
    using False by (cases hasSolo) (simp_all add: scheduleTrack_def E1_def E2_def Let_def)
  show ?thesis
    unfolding st using foldl_scheduleNote [of bpm track E2 "track_notes track"] False
    by (simp add: same triggersOf_def)
qed

lemma triggersOf_Cons:
  "triggersOf bpm (filter P (t # ts)) = triggersOf bpm (filter P [t]) @ triggersOf bpm (filter P ts)"
  by (simp add: triggersOf_def)

lemma foldl_scheduleTrack:
  "events (transport (foldl (scheduleTrack hasSolo bpm) E ts)) =
     events (transport E) @ numbered (nextEventId (transport E))
       (triggersOf bpm (filter (\<lambda>t. \<not> muted t \<and> \<not> (hasSolo \<and> \<not> solo t)) ts)) \<and>
   nextEventId (transport (foldl (scheduleTrack hasSolo bpm) E ts)) =
     nextEventId (transport E) +
     length (triggersOf bpm (filter (\<lambda>t. \<not> muted t \<and> \<not> (hasSolo \<and> \<not> solo t)) ts)) \<and>
   scheduledEvents (foldl (scheduleTrack hasSolo bpm) E ts) =
     scheduledEvents E @ [nextEventId (transport E) ..< nextEventId (transport E) +
     length (triggersOf bpm (filter (\<lambda>t. \<not> muted t \<and> \<not> (hasSolo \<and> \<not> solo t)) ts))]"
proof (induction ts arbitrary: E)
  case Nil
  show ?case by (simp add: triggersOf_def numbered_Nil)
next
  case (Cons t ts)
  let ?P = "\<lambda>t. \<not> muted t \<and> \<not> (hasSolo \<and> \<not> solo t)"
  define n where "n = nextEventId (transport E)"
  define a where "a = triggersOf bpm (filter ?P [t])"
  define b where "b = triggersOf bpm (filter ?P ts)"
  define E' where "E' = scheduleTrack hasSolo bpm E t"
  have h: "events (transport E') = events (transport E) @ numbered n a"
          "nextEventId (transport E') = n + length a"
          "scheduledEvents E' = scheduledEvents E @ [n ..< n + length a]"
    using scheduleTrack_events [of hasSolo bpm E t] unfolding E'_def n_def a_def by blast+
  have ih: "events (transport (foldl (scheduleTrack hasSolo bpm) E' ts)) =
              events (transport E') @ numbered (nextEventId (transport E')) b"
           "nextEventId (transport (foldl (scheduleTrack hasSolo bpm) E' ts)) =
              nextEventId (transport E') + length b"
           "scheduledEvents (foldl (scheduleTrack hasSolo bpm) E' ts) =
              scheduledEvents E' @ [nextEventId (transport E') ..< nextEventId (transport E') + length b]"
    using Cons.IH [of E'] unfolding b_def by blast+
  have split: "triggersOf bpm (filter ?P (t # ts)) = a @ b"
    unfolding a_def b_def by (rule triggersOf_Cons)
  have upt: "[n ..< n + length a] @ [n + length a ..< n + length a + length b] =
             [n ..< n + length (a @ b)]"
    using upt_add_eq_append [of n "n + length a" "length b"] by (simp add: add.assoc)
  have f: "foldl (scheduleTrack hasSolo bpm) E (t # ts) = foldl (scheduleTrack hasSolo bpm) E' ts"
    by (simp add: E'_def)
  have e: "events (transport (foldl (scheduleTrack hasSolo bpm) E (t # ts))) =
           events (transport E) @ numbered n (triggersOf bpm (filter ?P (t # ts)))"
    unfolding split f by (simp add: ih h numbered_append)
  have n: "nextEventId (transport (foldl (scheduleTrack hasSolo bpm) E (t # ts))) =
           n + length (triggersOf bpm (filter ?P (t # ts)))"
    unfolding split f by (simp add: ih h)
  have s: "scheduledEvents (foldl (scheduleTrack hasSolo bpm) E (t # ts)) =
           scheduledEvents E @ [n ..< n + length (triggersOf bpm (filter ?P (t # ts)))]"
    unfolding split f using upt by (simp add: ih h)
  from e n s show ?case unfolding n_def by blast
qed

lemma active_filter:
  "filter (\<lambda>t. \<not> muted t \<and> \<not> (list_ex solo tracks \<and> \<not> solo t)) tracks = activeTrackSet tracks"
  by (cases "list_ex solo tracks") (auto simp: activeTrackSet_def intro: filter_cong)

lemma foldl_transport_clear:
  "events (foldl (\<lambda>T eventId. transport_clear eventId T) T ids) =
     filter (\<lambda>e. fst e \<notin> set ids) (events T) \<and>
   nextEventId (foldl (\<lambda>T eventId. transport_clear eventId T) T ids) = nextEventId T"
proof (induction ids arbitrary: T)
  case Nil
  show ?case by simp
next
  case (Cons i ids)
  show ?case
    using Cons.IH [of "transport_clear i T"]
    by (simp add: transport_clear_def)
qed

lemma clearScheduledNotes_inv:
  assumes "engineInv E"
  shows "events (transport (clearScheduledNotes E)) = []"
    and "scheduledEvents (clearScheduledNotes E) = []"
    and "nextEventId (transport (clearScheduledNotes E)) = nextEventId (transport E)"
proof -
  have "set (map fst (events (transport E))) = set (scheduledEvents E)"
    using assms by (simp add: engineInv_def)
  then have "filter (\<lambda>e. fst e \<notin> set (scheduledEvents E)) (events (transport E)) = []"
    by (auto simp: filter_empty_conv)
  then show "events (transport (clearScheduledNotes E)) = []"
    by (simp add: clearScheduledNotes_def foldl_transport_clear)
  show "scheduledEvents (clearScheduledNotes E) = []"
    by (simp add: clearScheduledNotes_def)
  show "nextEventId (transport (clearScheduledNotes E)) = nextEventId (transport E)"
    by (simp add: clearScheduledNotes_def foldl_transport_clear)
qed


lemma scheduleNotes_events:
  assumes "engineInv E"
  shows "events (transport (scheduleNotes tracks loopRegion bpm E)) =
           numbered (nextEventId (transport E))
             (triggersOf bpm (activeTrackSet tracks) @ [(Every ''16n'', BeatUpdate)])"
    and "scheduledEvents (scheduleNotes tracks loopRegion bpm E) =
           [nextEventId (transport E) ..< nextEventId (transport E) +
              length (triggersOf bpm (activeTrackSet tracks) @ [(Every ''16n'', BeatUpdate)])]"
    and "nextEventId (transport (scheduleNotes tracks loopRegion bpm E)) =
           nextEventId (transport E) +
              length (triggersOf bpm (activeTrackSet tracks) @ [(Every ''16n'', BeatUpdate)])"
proof -
  define n where "n = nextEventId (transport E)"
  define A where "A = triggersOf bpm (activeTrackSet tracks)"
  define E2 where "E2 = setBPM bpm (clearScheduledNotes E)"
  define E3 where "E3 = foldl (scheduleTrack (list_ex solo tracks) bpm) E2 tracks"
  define E4 where "E4 = (if enabled loopRegion
               then E3\<lparr> transport := (transport E3)
                        \<lparr> transport_loop := True,
                          loopStart := beatsToSeconds (loop_start loopRegion) bpm,
                          loopEnd := beatsToSeconds (loop_end loopRegion) bpm \<rparr> \<rparr>
               else E3\<lparr> transport := (transport E3)\<lparr> transport_loop := False \<rparr> \<rparr>)"
  have e2: "events (transport E2) = []" "scheduledEvents E2 = []" "nextEventId (transport E2) = n"
    using clearScheduledNotes_inv [OF assms] by (simp_all add: E2_def setBPM_def n_def)
  have e3: "events (transport E3) = numbered n A" "scheduledEvents E3 = [n ..< n + length A]"
           "nextEventId (transport E3) = n + length A"
    using foldl_scheduleTrack [of "list_ex solo tracks" bpm E2 tracks]
    unfolding E3_def [symmetric] active_filter A_def [symmetric] by (simp_all add: e2)
  have e4: "events (transport E4) = numbered n A" "scheduledEvents E4 = [n ..< n + length A]"
           "nextEventId (transport E4) = n + length A"
    by (simp_all add: E4_def e3)
  have r: "scheduleNotes tracks loopRegion bpm E =
           E4\<lparr> transport := (transport E4)
                   \<lparr> events := events (transport E4) @
                        [(nextEventId (transport E4), Every ''16n'', BeatUpdate)],
                     nextEventId := Suc (nextEventId (transport E4)) \<rparr>,
               scheduledEvents := scheduledEvents E4 @ [nextEventId (transport E4)] \<rparr>"
    by (simp add: scheduleNotes_def Let_def transport_scheduleRepeat_def
          E2_def E3_def E4_def)
  show "events (transport (scheduleNotes tracks loopRegion bpm E)) =
           numbered n (A @ [(Every ''16n'', BeatUpdate)])"
    unfolding r by (simp add: e4 numbered_append numbered_Cons numbered_Nil)
  show "scheduledEvents (scheduleNotes tracks loopRegion bpm E) =
           [n ..< n + length (A @ [(Every ''16n'', BeatUpdate)])]"
    unfolding r by (simp add: e4)
  show "nextEventId (transport (scheduleNotes tracks loopRegion bpm E)) =
           n + length (A @ [(Every ''16n'', BeatUpdate)])"
    unfolding r by (simp add: e4)
qed

lemma engineInv_scheduleNotes:
  assumes "engineInv E"
  shows "engineInv (scheduleNotes tracks loopRegion bpm E)"
  unfolding engineInv_def
  by (simp add: scheduleNotes_events [OF assms] map_fst_numbered list_all_iff del: upt_Suc)

lemma engineInv_clearScheduledNotes:
  assumes "engineInv E"
  shows "engineInv (clearScheduledNotes E)"
  unfolding engineInv_def by (simp add: clearScheduledNotes_inv [OF assms])

lemma engineInv_initial: "engineInv initialEngine"
  by (simp add: engineInv_def initialEngine_def newTransport_def)

lemma engineInv_step: "engineInv E \<Longrightarrow> engineInv (engineStep E a)"
  by (cases a) (simp_all add: engineInv_scheduleNotes engineInv_clearScheduledNotes)

lemma engineInv_foldl: "engineInv E \<Longrightarrow> engineInv (foldl engineStep E acts)"
  by (induction acts arbitrary: E) (simp_all add: engineInv_step)

lemma engineInv_run: "engineInv (engineRun acts)"
  unfolding engineRun_def by (rule engineInv_foldl [OF engineInv_initial])

lemma render_notes:
  "events (foldl (\<lambda>T note. snd (transport_schedule
                       (TriggerAttackRelease (track_id track) (midiToFrequency (pitch note))
                          (beatsToSeconds (duration note) bpm) (velocity note))
                       (beatsToSeconds (start note) bpm) T)) T ns) =
     events T @ numbered (nextEventId T) (map (noteTrigger bpm track) ns) \<and>
   nextEventId (foldl (\<lambda>T note. snd (transport_schedule
                       (TriggerAttackRelease (track_id track) (midiToFrequency (pitch note))
                          (beatsToSeconds (duration note) bpm) (velocity note))
                       (beatsToSeconds (start note) bpm) T)) T ns) = nextEventId T + length ns"
proof (induction ns arbitrary: T)
  case Nil
  show ?case by (simp add: numbered_Nil)
next
  case (Cons n ns)
  show ?case
    using Cons.IH [of "snd (transport_schedule
         (TriggerAttackRelease (track_id track) (midiToFrequency (pitch n))
            (beatsToSeconds (duration n) bpm) (velocity n))
         (beatsToSeconds (start n) bpm) T)"]
    by (simp add: transport_schedule_def numbered_Cons noteTrigger_def)
qed

lemma render_tracks:
  fixes hasSolo :: bool and bpm :: real
  defines "F \<equiv> (\<lambda>T track.
           if muted track then T
           else if hasSolo \<and> \<not> solo track then T
           else foldl (\<lambda>T note. snd (transport_schedule
                       (TriggerAttackRelease (track_id track) (midiToFrequency (pitch note))
                          (beatsToSeconds (duration note) bpm) (velocity note))
                       (beatsToSeconds (start note) bpm) T))
                T (track_notes track))"
  shows "events (foldl F T ts) =
     events T @ numbered (nextEventId T)
       (triggersOf bpm (filter (\<lambda>t. \<not> muted t \<and> \<not> (hasSolo \<and> \<not> solo t)) ts)) \<and>
   nextEventId (foldl F T ts) =
     nextEventId T +
       length (triggersOf bpm (filter (\<lambda>t. \<not> muted t \<and> \<not> (hasSolo \<and> \<not> solo t)) ts))"
proof (induction ts arbitrary: T)
  case Nil
  show ?case by (simp add: triggersOf_def numbered_Nil)
next
  case (Cons t ts)
  let ?P = "\<lambda>t. \<not> muted t \<and> \<not> (hasSolo \<and> \<not> solo t)"
  show ?case
  proof (cases "?P t")
    case False
    then have "F T t = T" by (auto simp: F_def)
    moreover have "filter ?P (t # ts) = filter ?P ts" using False by simp
    ultimately show ?thesis using Cons.IH [of T] by (simp del: filter.simps)
  next
    case True
    define a where "a = map (noteTrigger bpm t) (track_notes t)"
    define b where "b = triggersOf bpm (filter ?P ts)"
    have ft: "events (F T t) = events T @ numbered (nextEventId T) a"
             "nextEventId (F T t) = nextEventId T + length a"
      using render_notes [where track = t and bpm = bpm and T = T and ns = "track_notes t"] True
      by (auto simp: F_def a_def)
    have split: "triggersOf bpm (filter ?P (t # ts)) = a @ b"
      using True by (simp add: triggersOf_def a_def b_def)
    show ?thesis
      unfolding split using Cons.IH [of "F T t"]
      by (simp add: ft b_def numbered_append add.assoc)
  qed
qed

lemma renderToWav_events:
  "events (renderToWav_schedule tracks bpm) = numbered 0 (triggersOf bpm (activeTrackSet tracks))"
  unfolding renderToWav_schedule_def Let_def
  using render_tracks [where hasSolo = "list_ex solo tracks" and bpm = bpm
                          and T = "newTransport\<lparr> transport_bpm := bpm \<rparr>" and ts = tracks]
  unfolding active_filter by (simp add: newTransport_def)


lemma clearScheduledNotes_idem:
  "clearScheduledNotes (clearScheduledNotes E) = clearScheduledNotes E"
  by (simp add: clearScheduledNotes_def)

lemma clearScheduledNotes_nothing_pending:
  "scheduledEvents E = [] \<Longrightarrow> clearScheduledNotes E = E"
  by (simp add: clearScheduledNotes_def)

lemma scheduleNotes_clears_first:
  "scheduleNotes tracks loopRegion bpm (clearScheduledNotes E) = scheduleNotes tracks loopRegion bpm E"
  by (simp add: scheduleNotes_def clearScheduledNotes_idem)

lemma numbered_ids: "e \<in> set (numbered n xs) \<Longrightarrow> n \<le> fst e"
proof -
  assume "e \<in> set (numbered n xs)"
  then have "fst e \<in> set (map fst (numbered n xs))" by (simp del: map_fst_zip)
  then show ?thesis unfolding map_fst_numbered by simp
qed

lemma engineInv_ids: "engineInv E \<Longrightarrow> e \<in> set (events (transport E)) \<Longrightarrow> fst e < nextEventId (transport E)"
proof -
  assume inv: "engineInv E" and e: "e \<in> set (events (transport E))"
  from e have "fst e \<in> set (map fst (events (transport E)))" by simp
  moreover have "map fst (events (transport E)) = scheduledEvents E"
    using inv by (simp add: engineInv_def)
  ultimately have "fst e \<in> set (scheduledEvents E)" by (simp only:)
  then show ?thesis using inv by (simp add: engineInv_def list_all_iff)
qed

lemma scheduleNotes_disjoint:
  assumes "engineInv E"
  shows "set (events (transport E)) \<inter>
         set (events (transport (scheduleNotes tracks loopRegion bpm E))) = {}"
proof -
  have "\<And>e. e \<in> set (events (transport E)) \<Longrightarrow>
            e \<in> set (events (transport (scheduleNotes tracks loopRegion bpm E))) \<Longrightarrow> False"
  proof -
    fix e
    assume a: "e \<in> set (events (transport E))"
      and b: "e \<in> set (events (transport (scheduleNotes tracks loopRegion bpm E)))"
    have "fst e < nextEventId (transport E)" using engineInv_ids [OF assms a] .
    moreover have "nextEventId (transport E) \<le> fst e"
      using b unfolding scheduleNotes_events(1) [OF assms] by (rule numbered_ids)
    ultimately show False by simp
  qed
  then show ?thesis by blast
qed

text \<open>
  C3. For every track list, the active track set of the scheduler is: if at least one track
  has solo set, exactly the tracks with solo set and muted unset; otherwise exactly the
  tracks with muted unset. After scheduleNotes, in any state the engine can be in, the
  pending events are the note triggers of the active tracks, in order, and the beat tick;
  the offline renderer registers the note triggers of the same active tracks.
\<close>

theorem C3_active_track_set:
  "activeTrackSet tracks =
     (if \<exists>t \<in> set tracks. solo t then filter (\<lambda>t. solo t \<and> \<not> muted t) tracks
      else filter (\<lambda>t. \<not> muted t) tracks) \<and>
   map snd (events (transport (scheduleNotes tracks loopRegion bpm (engineRun acts)))) =
     triggersOf bpm (activeTrackSet tracks) @ [(Every ''16n'', BeatUpdate)] \<and>
   map snd (events (renderToWav_schedule tracks bpm)) = triggersOf bpm (activeTrackSet tracks)"
proof -
  have a: "activeTrackSet tracks =
     (if \<exists>t \<in> set tracks. solo t then filter (\<lambda>t. solo t \<and> \<not> muted t) tracks
      else filter (\<lambda>t. \<not> muted t) tracks)"
    by (simp add: activeTrackSet_def list_ex_iff)
  have b: "map snd (events (transport (scheduleNotes tracks loopRegion bpm (engineRun acts)))) =
     triggersOf bpm (activeTrackSet tracks) @ [(Every ''16n'', BeatUpdate)]"
    unfolding scheduleNotes_events(1) [OF engineInv_run] by (rule map_snd_numbered)
  have c: "map snd (events (renderToWav_schedule tracks bpm)) = triggersOf bpm (activeTrackSet tracks)"
    unfolding renderToWav_events by (rule map_snd_numbered)
  from a b c show ?thesis by blast
qed

theorem C3_active_track_set_witness:
  "activeTrackSet [trackA [note_n1], (trackB [note_n2])\<lparr> solo := True \<rparr>,
                   (trackC [note_n3])\<lparr> muted := True \<rparr>] =
     [(trackB [note_n2])\<lparr> solo := True \<rparr>] \<and>
   map snd (events (transport (scheduleNotes
       [trackA [note_n1], (trackB [note_n2])\<lparr> solo := True \<rparr>, (trackC [note_n3])\<lparr> muted := True \<rparr>]
       \<lparr> loop_start = 0, loop_end = 16, enabled = False \<rparr> 120 (engineRun [])))) =
     [(At (1 / 2), TriggerAttackRelease ''B'' (midiToFrequency 62) (1 / 2) (4 / 5)),
      (Every ''16n'', BeatUpdate)] \<and>
   map snd (events (renderToWav_schedule
       [trackA [note_n1], (trackB [note_n2])\<lparr> solo := True \<rparr>, (trackC [note_n3])\<lparr> muted := True \<rparr>]
       120)) =
     [(At (1 / 2), TriggerAttackRelease ''B'' (midiToFrequency 62) (1 / 2) (4 / 5))]"
proof -
  have a: "activeTrackSet [trackA [note_n1], (trackB [note_n2])\<lparr> solo := True \<rparr>,
                   (trackC [note_n3])\<lparr> muted := True \<rparr>] =
     [(trackB [note_n2])\<lparr> solo := True \<rparr>]"
    by (simp add: activeTrackSet_def trackA_def trackB_def trackC_def createDefaultTrack_def)
  have t: "triggersOf 120 [(trackB [note_n2])\<lparr> solo := True \<rparr>] =
     [(At (1 / 2), TriggerAttackRelease ''B'' (midiToFrequency 62) (1 / 2) (4 / 5))]"
    by (simp add: triggersOf_def noteTrigger_def trackB_def createDefaultTrack_def note_n2_def
          beatsToSeconds_def)
  show ?thesis
    using C3_active_track_set [of "[trackA [note_n1], (trackB [note_n2])\<lparr> solo := True \<rparr>,
                   (trackC [note_n3])\<lparr> muted := True \<rparr>]"
             "\<lparr> loop_start = 0, loop_end = 16, enabled = False \<rparr>" 120 "[]"]
    unfolding a t by simp
qed

text \<open>
  C9. In every state reached by calls of scheduleNotes and clearScheduledNotes, scheduleNotes
  clears first (its result is that of running it after clearScheduledNotes), clearing leaves
  no pending event and is a no-op when nothing is pending, the pending events are exactly
  the ones the engine holds the ids of, and after scheduleNotes they are exactly the events
  of that call, none of which was pending before it.
\<close>

theorem C9_reschedule_retracts:
  "scheduleNotes tracks loopRegion bpm (engineRun acts) =
     scheduleNotes tracks loopRegion bpm (clearScheduledNotes (engineRun acts)) \<and>
   events (transport (clearScheduledNotes (engineRun acts))) = [] \<and>
   (scheduledEvents (engineRun acts) = [] \<longrightarrow>
      clearScheduledNotes (engineRun acts) = engineRun acts) \<and>
   map fst (events (transport (engineRun acts))) = scheduledEvents (engineRun acts) \<and>
   events (transport (scheduleNotes tracks loopRegion bpm (engineRun acts))) =
     numbered (nextEventId (transport (engineRun acts)))
       (triggersOf bpm (activeTrackSet tracks) @ [(Every ''16n'', BeatUpdate)]) \<and>
   set (events (transport (engineRun acts))) \<inter>
     set (events (transport (scheduleNotes tracks loopRegion bpm (engineRun acts)))) = {}"
proof -
  have inv: "engineInv (engineRun acts)" by (rule engineInv_run)
  have a: "scheduleNotes tracks loopRegion bpm (engineRun acts) =
     scheduleNotes tracks loopRegion bpm (clearScheduledNotes (engineRun acts))"
    by (simp add: scheduleNotes_clears_first)
  have b: "events (transport (clearScheduledNotes (engineRun acts))) = []"
    by (rule clearScheduledNotes_inv(1) [OF inv])
  have c: "scheduledEvents (engineRun acts) = [] \<longrightarrow>
      clearScheduledNotes (engineRun acts) = engineRun acts"
    by (simp add: clearScheduledNotes_nothing_pending)
  have d: "map fst (events (transport (engineRun acts))) = scheduledEvents (engineRun acts)"
    using inv by (simp add: engineInv_def)
  have e: "events (transport (scheduleNotes tracks loopRegion bpm (engineRun acts))) =
     numbered (nextEventId (transport (engineRun acts)))
       (triggersOf bpm (activeTrackSet tracks) @ [(Every ''16n'', BeatUpdate)])"
    by (rule scheduleNotes_events(1) [OF inv])
  have f: "set (events (transport (engineRun acts))) \<inter>
     set (events (transport (scheduleNotes tracks loopRegion bpm (engineRun acts)))) = {}"
    by (rule scheduleNotes_disjoint [OF inv])
  from a b c d e f show ?thesis by blast
qed


lemmas engine_defs =
  engineRun_def initialEngine_def newTransport_def scheduleNotes_def clearScheduledNotes_def
  setBPM_def scheduleTrack_def scheduleNote_def transport_schedule_def
  transport_scheduleRepeat_def transport_clear_def getTrackSynth_def createTrackSynth_def
  updateTrackSynth_def

theorem C9_reschedule_retracts_witness:
  "scheduledEvents (engineRun []) = [] \<and>
   clearScheduledNotes (engineRun []) = engineRun [] \<and>
   events (transport (engineRun
      [ScheduleNotes [trackA [note_n1]] \<lparr> loop_start = 0, loop_end = 16, enabled = False \<rparr> 120])) =
     [(0, At 0, TriggerAttackRelease ''A'' (midiToFrequency 60) (1 / 2) (4 / 5)),
      (1, Every ''16n'', BeatUpdate)] \<and>
   events (transport (scheduleNotes [trackA [note_n2]]
      \<lparr> loop_start = 0, loop_end = 16, enabled = False \<rparr> 120
      (engineRun
        [ScheduleNotes [trackA [note_n1]] \<lparr> loop_start = 0, loop_end = 16, enabled = False \<rparr> 120]))) =
     [(2, At (1 / 2), TriggerAttackRelease ''A'' (midiToFrequency 62) (1 / 2) (4 / 5)),
      (3, Every ''16n'', BeatUpdate)]"
proof -
  let ?L = "\<lparr> loop_start = 0, loop_end = 16, enabled = False \<rparr>"
  have s: "scheduledEvents (engineRun []) = []"
    by (simp add: engineRun_def initialEngine_def)
  have e1: "events (transport (engineRun [ScheduleNotes [trackA [note_n1]] ?L 120])) =
     [(0, At 0, TriggerAttackRelease ''A'' (midiToFrequency 60) (1 / 2) (4 / 5)),
      (1, Every ''16n'', BeatUpdate)]"
    by (simp add: engine_defs trackA_def createDefaultTrack_def note_n1_def beatsToSeconds_def
          Let_def)
  have n1: "nextEventId (transport (engineRun [ScheduleNotes [trackA [note_n1]] ?L 120])) = 2"
    by (simp add: engine_defs trackA_def createDefaultTrack_def note_n1_def beatsToSeconds_def
          Let_def)
  have t: "triggersOf 120 (activeTrackSet [trackA [note_n2]]) =
     [(At (1 / 2), TriggerAttackRelease ''A'' (midiToFrequency 62) (1 / 2) (4 / 5))]"
    by (simp add: triggersOf_def activeTrackSet_def noteTrigger_def trackA_def
          createDefaultTrack_def note_n2_def beatsToSeconds_def)
  have nb: "numbered 2 [(At (1 / 2), TriggerAttackRelease ''A'' (midiToFrequency 62) (1 / 2) (4 / 5)),
                        (Every ''16n'', BeatUpdate)] =
            [(2, At (1 / 2), TriggerAttackRelease ''A'' (midiToFrequency 62) (1 / 2) (4 / 5)),
             (3, Every ''16n'', BeatUpdate)]"
    by (simp add: numbered_Cons numbered_Nil)
  have c: "clearScheduledNotes (engineRun []) = engineRun []"
    using C9_reschedule_retracts [of "[]" ?L 120 "[]"] s by blast
  have e2: "events (transport (scheduleNotes [trackA [note_n2]] ?L 120
      (engineRun [ScheduleNotes [trackA [note_n1]] ?L 120]))) =
     [(2, At (1 / 2), TriggerAttackRelease ''A'' (midiToFrequency 62) (1 / 2) (4 / 5)),
      (3, Every ''16n'', BeatUpdate)]"
    using C9_reschedule_retracts [of "[trackA [note_n2]]" ?L 120
            "[ScheduleNotes [trackA [note_n1]] ?L 120]",
            THEN conjunct2, THEN conjunct2, THEN conjunct2, THEN conjunct2, THEN conjunct1]
    unfolding n1 t by (simp add: nb)
  from s c e1 e2 show ?thesis by blast
qed

subsection \<open>The beat tick\<close>

lemma split_on_nonempty: "split_on c s \<noteq> []"
  by (induction s) (auto split: list.splits)

lemma split_on_no_sep: "c \<notin> set a \<Longrightarrow> split_on c a = [a]"
  by (induction a) (auto split: list.splits)

lemma split_on_sep: "c \<notin> set a \<Longrightarrow> split_on c (a @ c # rest) = a # split_on c rest"
  by (induction a) (auto split: list.splits simp: split_on_nonempty)

lemma split_on_chars:
  "x \<in> set s \<Longrightarrow> x = c \<or> (\<exists>w \<in> set (split_on c s). x \<in> set w)"
  by (induction s) (auto split: list.splits if_splits)

lemma digitsValue_digits:
  "digitsValue acc s = Some v \<Longrightarrow> x \<in> set s \<Longrightarrow> digitValue x \<noteq> None"
  by (induction s arbitrary: acc) (auto split: option.splits)

lemma colon_not_digit: "digitValue (CHR '':'') = None"
  by (simp add: digitValue_def)

lemma Number_of_string_no_colon:
  assumes "Number_of_string a = Some v"
  shows "CHR '':'' \<notin> set a"
proof
  assume "CHR '':'' \<in> set a"
  then obtain w where w: "w \<in> set (split_on (CHR ''.'') a)" "CHR '':'' \<in> set w"
    using split_on_chars [of "CHR '':''" a "CHR ''.''"] by auto
  have "\<exists>acc u. digitsValue acc w = Some u"
    using assms w
    by (auto simp: Number_of_string_def split: list.splits if_splits option.splits)
  then show False
    using digitsValue_digits w(2) colon_not_digit by blast
qed


lemma split_position:
  assumes "CHR '':'' \<notin> set a" and "CHR '':'' \<notin> set b" and "CHR '':'' \<notin> set c"
  shows "split_on (CHR '':'') (a @ '':'' @ b @ '':'' @ c) = [a, b, c]"
proof -
  have "split_on (CHR '':'') (a @ CHR '':'' # (b @ CHR '':'' # c)) =
        a # split_on (CHR '':'') (b @ CHR '':'' # c)"
    using assms(1) by (rule split_on_sep)
  also have "split_on (CHR '':'') (b @ CHR '':'' # c) = b # split_on (CHR '':'') c"
    using assms(2) by (rule split_on_sep)
  also have "split_on (CHR '':'') c = [c]"
    using assms(3) by (rule split_on_no_sep)
  finally show ?thesis by simp
qed

text \<open>
  C10. For every transport position string of the form bars:beats:sixteenths, the beat value
  that the repeating tick passes to onBeatUpdate is bars * 4 + beats + sixteenths / 4: the
  bars are converted at 4 beats per bar, a constant; the tick has no access to the time
  signature of the project.
\<close>

theorem C10_tick_beats:
  assumes "Number_of_string a = Some bars"
    and "Number_of_string b = Some beats"
    and "Number_of_string c = Some sixteenths"
  shows "beatUpdateTick (PositionString (a @ '':'' @ b @ '':'' @ c)) =
           [Some (bars * 4 + beats + sixteenths / 4)] \<and>
         bars * 4 = barsToBeats bars 4"
proof -
  have "split_on (CHR '':'') (a @ '':'' @ b @ '':'' @ c) = [a, b, c]"
    using assms by (intro split_position Number_of_string_no_colon)
  then show ?thesis
    using assms by (simp add: beatUpdateTick_def Let_def barsToBeats_def)
qed

theorem C10_tick_beats_witness:
  "Number_of_string ''2'' = Some 2 \<and> Number_of_string ''3'' = Some 3 \<and>
   Number_of_string ''1.5'' = Some (3 / 2) \<and>
   beatUpdateTick (PositionString ''2:3:1.5'') = [Some (2 * 4 + 3 + (3 / 2) / 4)] \<and>
   beatUpdateTick (PositionString ''2:3:1.5'') = [Some (91 / 8)]"
proof -
  have n: "Number_of_string ''2'' = Some 2" "Number_of_string ''3'' = Some 3"
          "Number_of_string ''1.5'' = Some (3 / 2)"
    by (simp_all add: Number_of_string_def digitValue_def)
  show ?thesis
    using C10_tick_beats [OF n] n by simp
qed

end
